theory Spec2Isabelle
  imports Complex_Main
begin

section \<open>qb\_timesheets: per-project day totals from a QuickBooks time report\<close>

text \<open>
  The theory embeds \<^verbatim>\<open>qb_timesheets.py\<close>: the extractor \<^verbatim>\<open>parse_qb\<close>, the reporters
  \<^verbatim>\<open>create_chart\<close> and \<^verbatim>\<open>write_csv\<close>, and the traversal \<^verbatim>\<open>process_files\<close>.
  Exceptions are values of type \<open>error\<close>; what the Python runtime provides (the
  builtin \<^verbatim>\<open>float\<close>, the text of a float, whether matplotlib can be imported) is a
  record handed to every function.
\<close>

subsection \<open>Exceptions and the runtime\<close>

datatype error = AttributeError | TypeError | ValueError | UnboundLocalError | CsvError

text \<open>
  Numbers are values of a linearly ordered field \<open>'v\<close>: \<^verbatim>\<open>float(s)\<close> is the function
  \<open>float_of\<close> (\<open>None\<close> where Python raises ValueError), \<^verbatim>\<open>str\<close> of a float is
  \<open>repr_of\<close>. Rounding and the IEEE values that are not ordered numbers are not part
  of this number type.
\<close>

record 'v runtime =
  float_of :: "string \<Rightarrow> 'v option"
  repr_of :: "'v \<Rightarrow> string"
  matplotlib :: bool

text \<open>\<^verbatim>\<open>float(x)\<close>: TypeError on \<^verbatim>\<open>None\<close>, ValueError on a string that is not a number.\<close>

definition py_float :: "('v, 'x) runtime_scheme \<Rightarrow> string option \<Rightarrow> error + 'v" where
  "py_float rt x =
     (case x of
        None \<Rightarrow> Inl TypeError
      | Some s \<Rightarrow> (case float_of rt s of None \<Rightarrow> Inl ValueError | Some v \<Rightarrow> Inr v))"

subsection \<open>Strings\<close>

definition startswith :: "string \<Rightarrow> string \<Rightarrow> bool" where
  "startswith s p = (take (length p) s = p)"

definition endswith :: "string \<Rightarrow> string \<Rightarrow> bool" where
  "endswith s p = (length p \<le> length s \<and> drop (length s - length p) s = p)"

subsection \<open>Dictionaries and sorting\<close>

text \<open>
  A \<^verbatim>\<open>dict\<close> keeps its keys in the order of their first insertion; assigning to a key
  that is present replaces the value where the key stands.
\<close>

type_synonym ('k, 'v) dict = "('k \<times> 'v) list"

fun dict_set :: "('k, 'v) dict \<Rightarrow> 'k \<Rightarrow> 'v \<Rightarrow> ('k, 'v) dict" where
  "dict_set [] k v = [(k, v)]"
| "dict_set ((k', v') # d) k v =
     (if k' = k then (k', v) # d else (k', v') # dict_set d k v)"

text \<open>\<^verbatim>\<open>OrderedDict(pairs)\<close> inserts the pairs one after the other.\<close>

definition OrderedDict :: "('k \<times> 'v) list \<Rightarrow> ('k, 'v) dict" where
  "OrderedDict ps = foldl (\<lambda>d (k, v). dict_set d k v) [] ps"

text \<open>
  \<^verbatim>\<open>sorted(xs, key=f, reverse=r)\<close>: a stable sort by the key; with \<^verbatim>\<open>reverse\<close> the
  list is reversed before and after sorting, which keeps equal keys in their
  original order.
\<close>

definition py_sorted :: "('a \<Rightarrow> 'k::linorder) \<Rightarrow> bool \<Rightarrow> 'a list \<Rightarrow> 'a list" where
  "py_sorted f reverse xs = (if reverse then rev (sort_key f (rev xs)) else sort_key f xs)"

subsection \<open>The extractor\<close>

text \<open>
  A row is the list of fields \<^verbatim>\<open>csv.reader\<close> yields for one record.
  \<^verbatim>\<open>csv.DictReader\<close> with the seven field names skips empty rows, and a field name
  beyond the end of a short row maps to \<^verbatim>\<open>None\<close>.
\<close>

type_synonym row = "string list"

definition DictReader :: "row list \<Rightarrow> row list" where
  "DictReader rows = filter (\<lambda>r. r \<noteq> []) rows"

definition getitem :: "row \<Rightarrow> nat \<Rightarrow> string option" where
  "getitem r i = (if i < length r then Some (r ! i) else None)"

definition project :: "row \<Rightarrow> string option" where
  "project r = getitem r 1"

definition Duration :: "row \<Rightarrow> string option" where
  "Duration r = getitem r 6"

text \<open>The loop of \<^verbatim>\<open>parse_qb\<close> over the rows, with the dictionary \<^verbatim>\<open>days\<close>.\<close>

fun parse_loop ::
  "('v::linordered_field, 'x) runtime_scheme \<Rightarrow> row list \<Rightarrow> (string, 'v) dict
     \<Rightarrow> error + (string, 'v) dict" where
  "parse_loop rt [] days = Inr days"
| "parse_loop rt (r # rs) days =
     (case project r of
        None \<Rightarrow> Inl AttributeError
      | Some p \<Rightarrow>
          if startswith p ''Total'' then
            (case py_float rt (Duration r) of
               Inl e \<Rightarrow> Inl e
             | Inr h \<Rightarrow> parse_loop rt rs (dict_set days (drop 6 p) (h / 8)))
          else parse_loop rt rs days)"

text \<open>
  \<^verbatim>\<open>parse_qb\<close> on the rows the reader yields. The reader is lazy: an error of its own
  (\<open>rerr\<close>) is raised only when the loop has consumed every row before it.
\<close>

definition parse_rows ::
  "('v::linordered_field, 'x) runtime_scheme \<Rightarrow> row list \<Rightarrow> error option
     \<Rightarrow> error + (string, 'v) dict" where
  "parse_rows rt rows rerr =
     (case parse_loop rt (DictReader rows) [] of
        Inl e \<Rightarrow> Inl e
      | Inr days \<Rightarrow>
          (case rerr of
             Some e \<Rightarrow> Inl e
           | None \<Rightarrow> Inr (OrderedDict (py_sorted snd True days))))"

subsection \<open>Reading a text file as CSV\<close>

text \<open>
  \<^verbatim>\<open>open(fin)\<close> is a text file with universal newlines: \<^verbatim>\<open>\r\n\<close> and \<^verbatim>\<open>\r\<close> are read
  as \<^verbatim>\<open>\n\<close>, and iterating the file yields its lines, each with its \<^verbatim>\<open>\n\<close>.
\<close>

definition LF :: char where "LF = CHR 0x0A"

definition CR :: char where "CR = CHR 0x0D"

definition delimiter :: char where "delimiter = CHR 0x2C"

definition quotechar :: char where "quotechar = CHR 0x22"

fun universal_newlines :: "string \<Rightarrow> string" where
  "universal_newlines [] = []"
| "universal_newlines [c] = [if c = CR then LF else c]"
| "universal_newlines (c # d # ds) =
     (if c = CR then LF # (if d = LF then universal_newlines ds else universal_newlines (d # ds))
      else c # universal_newlines (d # ds))"

fun splitlines :: "string \<Rightarrow> string \<Rightarrow> string list" where
  "splitlines cur [] = (if cur = [] then [] else [cur])"
| "splitlines cur (c # cs) =
     (if c = LF then (cur @ [c]) # splitlines [] cs else splitlines (cur @ [c]) cs)"

definition readlines :: "string \<Rightarrow> string list" where
  "readlines t = splitlines [] t"

definition open_text :: "string \<Rightarrow> string list" where
  "open_text content = readlines (universal_newlines content)"

text \<open>
  \<^verbatim>\<open>csv.reader\<close> for a dialect with delimiter \<^verbatim>\<open>,\<close>, quote character \<^verbatim>\<open>"\<close>, doubled
  quotes, no escape character, not strict (the \<^verbatim>\<open>excel\<close> and \<^verbatim>\<open>unix\<close> dialects): the
  state machine of the csv module. \<open>None\<close> is the end-of-line marker the reader sends
  itself after the last character of each line.
\<close>

datatype rstate =
  START_RECORD | START_FIELD | IN_FIELD | IN_QUOTED_FIELD | QUOTE_IN_QUOTED_FIELD | EAT_CRNL

record reader =
  rstate :: rstate
  rfields :: "string list"
  field_buf :: string

definition parse_reset :: reader where
  "parse_reset = \<lparr>rstate = START_RECORD, rfields = [], field_buf = []\<rparr>"

definition parse_save_field :: "reader \<Rightarrow> reader" where
  "parse_save_field r = r\<lparr>rfields := rfields r @ [field_buf r], field_buf := []\<rparr>"

definition parse_add_char :: "reader \<Rightarrow> char \<Rightarrow> reader" where
  "parse_add_char r c = r\<lparr>field_buf := field_buf r @ [c]\<rparr>"

definition end_of_field :: "reader \<Rightarrow> char option \<Rightarrow> reader" where
  "end_of_field r c =
     (parse_save_field r)\<lparr>rstate := (if c = None then START_RECORD else EAT_CRNL)\<rparr>"

definition is_eol :: "char option \<Rightarrow> bool" where
  "is_eol c = (c = None \<or> c = Some LF \<or> c = Some CR)"

definition start_field :: "reader \<Rightarrow> char option \<Rightarrow> reader" where
  "start_field r c =
     (if is_eol c then end_of_field r c
      else if c = Some quotechar then r\<lparr>rstate := IN_QUOTED_FIELD\<rparr>
      else if c = Some delimiter then parse_save_field r
      else (parse_add_char r (the c))\<lparr>rstate := IN_FIELD\<rparr>)"

definition parse_process_char :: "reader \<Rightarrow> char option \<Rightarrow> error + reader" where
  "parse_process_char r c =
     (case rstate r of
        START_RECORD \<Rightarrow>
          (if c = None then Inr r
           else if is_eol c then Inr (r\<lparr>rstate := EAT_CRNL\<rparr>)
           else Inr (start_field (r\<lparr>rstate := START_FIELD\<rparr>) c))
      | START_FIELD \<Rightarrow> Inr (start_field r c)
      | IN_FIELD \<Rightarrow>
          (if is_eol c then Inr (end_of_field r c)
           else if c = Some delimiter then Inr ((parse_save_field r)\<lparr>rstate := START_FIELD\<rparr>)
           else Inr (parse_add_char r (the c)))
      | IN_QUOTED_FIELD \<Rightarrow>
          (if c = None then Inr r
           else if c = Some quotechar then Inr (r\<lparr>rstate := QUOTE_IN_QUOTED_FIELD\<rparr>)
           else Inr (parse_add_char r (the c)))
      | QUOTE_IN_QUOTED_FIELD \<Rightarrow>
          (if c = Some quotechar then Inr ((parse_add_char r quotechar)\<lparr>rstate := IN_QUOTED_FIELD\<rparr>)
           else if c = Some delimiter then Inr ((parse_save_field r)\<lparr>rstate := START_FIELD\<rparr>)
           else if is_eol c then Inr (end_of_field r c)
           else Inr ((parse_add_char r (the c))\<lparr>rstate := IN_FIELD\<rparr>))
      | EAT_CRNL \<Rightarrow>
          (if c = Some LF \<or> c = Some CR then Inr r
           else if c = None then Inr (r\<lparr>rstate := START_RECORD\<rparr>)
           else Inl CsvError))"

text \<open>The characters of one line, then the end-of-line marker.\<close>

fun process_line :: "reader \<Rightarrow> string \<Rightarrow> error + reader" where
  "process_line r [] = parse_process_char r None"
| "process_line r (c # cs) =
     (case parse_process_char r (Some c) of
        Inl e \<Rightarrow> Inl e
      | Inr r' \<Rightarrow> process_line r' cs)"

text \<open>
  The records of a file, in order, and the error that ends the iteration, if any. A
  record takes lines until the machine is back at \<open>START_RECORD\<close>; at the end of the
  input a record that is under way is yielded as it stands.
\<close>

fun csv_rows :: "reader \<Rightarrow> string list \<Rightarrow> row list \<times> error option" where
  "csv_rows r [] =
     (if field_buf r \<noteq> [] \<or> rstate r = IN_QUOTED_FIELD
      then ([rfields (parse_save_field r)], None) else ([], None))"
| "csv_rows r (l # ls) =
     (case process_line r l of
        Inl e \<Rightarrow> ([], Some e)
      | Inr r' \<Rightarrow>
          if rstate r' = START_RECORD
          then (case csv_rows parse_reset ls of (rows, e) \<Rightarrow> (rfields r' # rows, e))
          else csv_rows r' ls)"

definition csv_reader :: "string list \<Rightarrow> row list \<times> error option" where
  "csv_reader csv_file = csv_rows parse_reset csv_file"

text \<open>\<^verbatim>\<open>parse_qb(csv_file)\<close>: the file is the list of its lines.\<close>

definition parse_qb ::
  "('v::linordered_field, 'x) runtime_scheme \<Rightarrow> string list \<Rightarrow> error + (string, 'v) dict" where
  "parse_qb rt csv_file =
     (case csv_reader csv_file of (rows, rerr) \<Rightarrow> parse_rows rt rows rerr)"

subsection \<open>Writing the summary\<close>

text \<open>
  \<^verbatim>\<open>os.path.splitext(p)[0]\<close>: the path up to the last dot of its last component,
  unless that component has only dots before it.
\<close>

definition rfind :: "string \<Rightarrow> char \<Rightarrow> int" where
  "rfind p c =
     (case filter (\<lambda>i. p ! i = c) (rev [0..<length p]) of [] \<Rightarrow> -1 | i # _ \<Rightarrow> int i)"

definition splitext_root :: "string \<Rightarrow> string" where
  "splitext_root p =
     (let sepIndex = rfind p (CHR ''/''); dotIndex = rfind p (CHR ''.'') in
      if dotIndex > sepIndex \<and>
         list_ex (\<lambda>i. p ! i \<noteq> CHR ''.'') [nat (sepIndex + 1)..<nat dotIndex]
      then take (nat dotIndex) p else p)"

text \<open>
  \<^verbatim>\<open>csv.writer\<close> with \<^verbatim>\<open>csv.unix_dialect\<close>: every field is quoted, a quote inside
  a field is doubled, fields are joined by the delimiter and the row ends with \<^verbatim>\<open>\n\<close>.
\<close>

definition quote_field :: "string \<Rightarrow> string" where
  "quote_field f =
     quotechar # concat (map (\<lambda>c. if c = quotechar then [quotechar, c] else [c]) f) @ [quotechar]"

fun join_fields :: "string list \<Rightarrow> string" where
  "join_fields [] = []"
| "join_fields [f] = f"
| "join_fields (f # g # fs) = f @ delimiter # join_fields (g # fs)"

definition writerow :: "string list \<Rightarrow> string" where
  "writerow fs = join_fields (map quote_field fs) @ [LF]"

subsection \<open>Effects\<close>

text \<open>
  What a run does to the outside: the messages logged at level INFO, the files
  opened for reading, the files written with their text, and the calls made to
  \<^verbatim>\<open>matplotlib.pyplot\<close>. (\<^verbatim>\<open>logging.debug\<close> is below the level the program sets.)
\<close>

datatype 'v plt_call =
  Bar "nat list" "'v list" | Xticks "string list" | Xlabel string | Ylabel string
| Tight_layout | Savefig string | Show

record 'v world =
  info_log :: "string list"
  opened :: "string list"
  written :: "(string \<times> string) list"
  plt :: "'v plt_call list"

definition logging_info :: "string \<Rightarrow> 'v world \<Rightarrow> 'v world" where
  "logging_info msg w = w\<lparr>info_log := info_log w @ [msg]\<rparr>"

definition plt_do :: "'v plt_call \<Rightarrow> 'v world \<Rightarrow> 'v world" where
  "plt_do c w = w\<lparr>plt := plt w @ [c]\<rparr>"

subsection \<open>The reporters\<close>

text \<open>
  \<^verbatim>\<open>create_chart\<close>: when the import fails the handler logs a message and the function
  goes on to \<^verbatim>\<open>np.arange\<close>, where the local name \<^verbatim>\<open>np\<close> is unbound.
\<close>

definition create_chart ::
  "('v, 'x) runtime_scheme \<Rightarrow> (string, 'v) dict \<Rightarrow> 'v world \<Rightarrow> error option \<times> 'v world" where
  "create_chart rt hours w =
     (if matplotlib rt then
        (None,
         (plt_do Tight_layout \<circ> plt_do (Ylabel ''Days booked'') \<circ> plt_do (Xlabel ''Project'')
            \<circ> plt_do (Xticks (map fst hours))
            \<circ> plt_do (Bar [0..<length hours] (map snd hours))) w)
      else
        (Some UnboundLocalError,
         logging_info ''Cannot create chart because matplotlib or numpy is not installed.'' w))"

definition csv_text :: "('v, 'x) runtime_scheme \<Rightarrow> (string, 'v) dict \<Rightarrow> string" where
  "csv_text rt summary =
     writerow [''Project'', ''Days''] @ concat (map (\<lambda>(p, t). writerow [p, repr_of rt t]) summary)"

definition write_csv ::
  "('v, 'x) runtime_scheme \<Rightarrow> string \<Rightarrow> (string, 'v) dict \<Rightarrow> 'v world \<Rightarrow> 'v world" where
  "write_csv rt fin summary w =
     (let fout = splitext_root fin @ ''_out.csv'';
          w1 = logging_info (''Writing '' @ fout) w
      in w1\<lparr>written := written w1 @ [(fout, csv_text rt summary)]\<rparr>)"

subsection \<open>The traversal\<close>

record args =
  plot :: bool
  save_plot :: bool
  no_export :: bool

text \<open>
  The file system is a tree; a path argument comes with the entry it names.
  \<^verbatim>\<open>os.walk(top)\<close> yields, for the directory and then for each directory below it, the
  directory's path, its subdirectories and its other entries. The tree is the file
  system as the run finds it: a run creates no directory, and the entries of every
  directory are taken from this tree. What a run writes is kept in \<open>written\<close> and is
  not entered into the tree, so an output file written into a directory that the
  walk reaches afterwards is not among the entries the walk yields there.
\<close>

datatype node = File string | Dir "(string \<times> node) list"

fun isdir :: "node \<Rightarrow> bool" where
  "isdir (Dir es) = True"
| "isdir (File c) = False"

definition join :: "string \<Rightarrow> string \<Rightarrow> string" where
  "join a b =
     (if startswith b ''/'' then b
      else if a = [] \<or> endswith a ''/'' then a @ b
      else a @ ''/'' @ b)"

definition dirnames_of :: "(string \<times> node) list \<Rightarrow> (string \<times> node) list" where
  "dirnames_of es = filter (\<lambda>e. isdir (snd e)) es"

definition filenames_of :: "(string \<times> node) list \<Rightarrow> (string \<times> node) list" where
  "filenames_of es = filter (\<lambda>e. \<not> isdir (snd e)) es"

type_synonym walk_item = "string \<times> (string \<times> node) list \<times> (string \<times> node) list"

lemma size_entry: "(a, b) \<in> set es \<Longrightarrow> size b < Suc (size_list (size_prod (\<lambda>x. 0) size) es)"
  by (induction es) auto

function os_walk :: "string \<Rightarrow> node \<Rightarrow> walk_item list" where
  "os_walk d (File c) = []"
| "os_walk d (Dir es) =
     (d, dirnames_of es, filenames_of es)
       # concat (map (\<lambda>e. os_walk (join d (fst e)) (snd e)) (dirnames_of es))"
  by pat_completeness auto
termination
  by (relation "measure (\<lambda>(d, n). size n)") (auto simp: dirnames_of_def dest: size_entry)

text \<open>The body of the loop of \<^verbatim>\<open>process_files\<close> for a path that is not a directory.\<close>

definition process_file ::
  "('v::linordered_field, 'x) runtime_scheme \<Rightarrow> args \<Rightarrow> string \<Rightarrow> string \<Rightarrow> 'v world
     \<Rightarrow> error option \<times> 'v world" where
  "process_file rt a fin content w =
     (let w1 = (logging_info (''Processing '' @ fin) w)\<lparr>opened := opened w @ [fin]\<rparr> in
      case parse_qb rt (open_text content) of
        Inl e \<Rightarrow> (Some e, w1)
      | Inr summary \<Rightarrow>
          (case (if plot a \<or> save_plot a then
                   (case create_chart rt summary w1 of
                      (Some e, w2) \<Rightarrow> (Some e, w2)
                    | (None, w2) \<Rightarrow>
                        (let w3 = (if save_plot a
                                   then plt_do (Savefig (splitext_root fin @ ''_out.png''))
                                          (logging_info (''Saving '' @ splitext_root fin @ ''_out.png'') w2)
                                   else w2);
                             w4 = (if plot a then plt_do Show w3 else w3)
                         in (None, w4)))
                 else (None, w1)) of
             (Some e, w5) \<Rightarrow> (Some e, w5)
           | (None, w5) \<Rightarrow>
               if \<not> no_export a then (None, write_csv rt fin summary w5) else (None, w5)))"

text \<open>
  \<^verbatim>\<open>process_files(args, *files)\<close>, and the loop over \<^verbatim>\<open>os.walk(fin)\<close> it runs for a
  directory. The calls \<^verbatim>\<open>process_files(args, join(root, x))\<close> for the names \<open>x\<close> of a
  list in turn are one call on the list of paths: the loop of \<^verbatim>\<open>process_files\<close>
  takes them in the same order, and an exception ends both. The result is the
  exception that ended the run, if any, and the effects up to there.
\<close>

definition entry_size :: "(string \<times> node) list \<Rightarrow> nat" where
  "entry_size es = foldr (\<lambda>e m. max (Suc (size (snd e))) m) es 0"

definition walk_size :: "walk_item list \<Rightarrow> nat" where
  "walk_size ts = foldr (\<lambda>t m. max (max (entry_size (fst (snd t))) (entry_size (snd (snd t)))) m) ts 0"

definition join_all :: "string \<Rightarrow> (string \<times> node) list \<Rightarrow> (string \<times> node) list" where
  "join_all rootdir es = map (\<lambda>e. (join rootdir (fst e), snd e)) es"

lemma entry_size_Cons: "entry_size (e # es) = max (Suc (size (snd e))) (entry_size es)"
  by (simp add: entry_size_def)

lemma entry_size_join_all: "entry_size (join_all rootdir es) = entry_size es"
  by (induction es) (simp_all add: entry_size_def join_all_def)

lemma entry_size_filter: "entry_size (filter P es) \<le> entry_size es"
  by (induction es) (auto simp: entry_size_def)

lemma entry_size_le: "entry_size es \<le> size (Dir es)"
  by (induction es) (auto simp: entry_size_def)

lemma walk_size_Cons:
  "walk_size (t # ts) = max (max (entry_size (fst (snd t))) (entry_size (snd (snd t)))) (walk_size ts)"
  by (simp add: walk_size_def)

lemma walk_size_append: "walk_size (xs @ ys) = max (walk_size xs) (walk_size ys)"
  by (induction xs) (simp_all add: walk_size_def)

lemma walk_size_concat: "(\<And>x. x \<in> set xss \<Longrightarrow> walk_size x \<le> n) \<Longrightarrow> walk_size (concat xss) \<le> n"
  by (induction xss) (simp_all add: walk_size_append, simp add: walk_size_def)

lemma walk_size_os_walk: "walk_size (os_walk d n) \<le> size n"
proof (induction d n rule: os_walk.induct)
  case (1 d c)
  show ?case by (simp add: walk_size_def)
next
  case (2 d es)
  have a: "entry_size (dirnames_of es) \<le> size (Dir es)"
    unfolding dirnames_of_def using entry_size_filter entry_size_le by (rule order_trans)
  have b: "entry_size (filenames_of es) \<le> size (Dir es)"
    unfolding filenames_of_def using entry_size_filter entry_size_le by (rule order_trans)
  have c: "walk_size (concat (map (\<lambda>e. os_walk (join d (fst e)) (snd e)) (dirnames_of es)))
             \<le> size (Dir es)"
  proof (rule walk_size_concat)
    fix x assume "x \<in> set (map (\<lambda>e. os_walk (join d (fst e)) (snd e)) (dirnames_of es))"
    then obtain e where e: "e \<in> set (dirnames_of es)" and x: "x = os_walk (join d (fst e)) (snd e)"
      by auto
    from e have "e \<in> set es" by (simp add: dirnames_of_def)
    then have "size (snd e) < size (Dir es)"
      using size_entry [of "fst e" "snd e" es] by simp
    with "2.IH" [OF e] x show "walk_size x \<le> size (Dir es)" by simp
  qed
  from a b c show ?case by (simp add: walk_size_Cons del: node.size)
qed

function process_files ::
    "('v::linordered_field, 'x) runtime_scheme \<Rightarrow> args \<Rightarrow> (string \<times> node) list \<Rightarrow> 'v world
       \<Rightarrow> error option \<times> 'v world"
  and for_walk ::
    "('v::linordered_field, 'x) runtime_scheme \<Rightarrow> args \<Rightarrow> walk_item list \<Rightarrow> 'v world
       \<Rightarrow> error option \<times> 'v world"
where
  "process_files rt a [] w = (None, w)"
| "process_files rt a ((fin, n) # files) w =
     (case n of
        Dir es \<Rightarrow>
          (case for_walk rt a (os_walk fin (Dir es)) (logging_info (''Searching '' @ fin) w) of
             (Some e, w') \<Rightarrow> (Some e, w')
           | (None, w') \<Rightarrow> process_files rt a files w')
      | File content \<Rightarrow>
          if \<not> (endswith fin ''.csv'' \<or> endswith fin ''.CSV'')
          then process_files rt a files (logging_info (''Ignoring '' @ fin) w)
          else (case process_file rt a fin content w of
                  (Some e, w') \<Rightarrow> (Some e, w')
                | (None, w') \<Rightarrow> process_files rt a files w'))"
| "for_walk rt a [] w = (None, w)"
| "for_walk rt a ((rootdir, dirnames, filenames) # ts) w =
     (case process_files rt a (join_all rootdir dirnames) w of
        (Some e, w1) \<Rightarrow> (Some e, w1)
      | (None, w1) \<Rightarrow>
          (case process_files rt a (join_all rootdir filenames) w1 of
             (Some e, w2) \<Rightarrow> (Some e, w2)
           | (None, w2) \<Rightarrow> for_walk rt a ts w2))"
  by pat_completeness auto
termination
  by (relation "measures
    [\<lambda>x. case x of Inl (rt, a, files, w) \<Rightarrow> entry_size files | Inr (rt, a, ts, w) \<Rightarrow> walk_size ts,
     \<lambda>x. case x of Inl _ \<Rightarrow> 0 | Inr _ \<Rightarrow> 1,
     \<lambda>x. case x of Inl (rt, a, files, w) \<Rightarrow> length files | Inr (rt, a, ts, w) \<Rightarrow> length ts]")
   (auto simp: entry_size_Cons walk_size_Cons entry_size_join_all less_Suc_eq_le walk_size_os_walk
      less_max_iff_disj simp del: node.size os_walk.simps)

subsection \<open>A runtime for the examples\<close>

text \<open>
  The examples run with rational numbers: \<^verbatim>\<open>float\<close> reads a plain decimal literal
  (an optional sign, digits, an optional point and digits) as the number it
  denotes, and the text of a number is its positional notation with at least one
  digit after the point, as Python prints the floats of the examples.
\<close>

definition digit_of :: "char \<Rightarrow> nat option" where
  "digit_of c =
     (if 48 \<le> (of_char c :: nat) \<and> (of_char c :: nat) \<le> 57 then Some (of_char c - 48) else None)"

fun digits_value :: "string \<Rightarrow> nat \<Rightarrow> nat option" where
  "digits_value [] acc = Some acc"
| "digits_value (c # cs) acc =
     (case digit_of c of None \<Rightarrow> None | Some d \<Rightarrow> digits_value cs (10 * acc + d))"

definition unsigned_float :: "string \<Rightarrow> rat option" where
  "unsigned_float t =
     (let ip = takeWhile (\<lambda>c. c \<noteq> CHR ''.'') t;
          fp = drop 1 (dropWhile (\<lambda>c. c \<noteq> CHR ''.'') t)
      in if ip = [] \<and> fp = [] then None
         else (case digits_value ip 0 of
                 None \<Rightarrow> None
               | Some i \<Rightarrow>
                   (case digits_value fp 0 of
                      None \<Rightarrow> None
                    | Some f \<Rightarrow> Some (of_nat i + of_nat f / 10 ^ length fp))))"

definition decimal_float :: "string \<Rightarrow> rat option" where
  "decimal_float s =
     (case s of
        [] \<Rightarrow> None
      | c # cs \<Rightarrow>
          if c = CHR ''-'' then map_option uminus (unsigned_float cs)
          else if c = CHR ''+'' then unsigned_float cs
          else unsigned_float s)"

function str_nat :: "nat \<Rightarrow> string" where
  "str_nat n =
     (if n < 10 then [char_of (48 + n)] else str_nat (n div 10) @ [char_of (48 + n mod 10)])"
  by pat_completeness auto
termination
  by (relation "measure id") auto

declare str_nat.simps [simp del]

fun frac_digits :: "nat \<Rightarrow> rat \<Rightarrow> string" where
  "frac_digits 0 f = []"
| "frac_digits (Suc k) f =
     (if f = 0 then []
      else char_of (48 + nat \<lfloor>f * 10\<rfloor>) # frac_digits k (f * 10 - of_int \<lfloor>f * 10\<rfloor>))"

definition decimal_repr :: "rat \<Rightarrow> string" where
  "decimal_repr q =
     (if q < 0 then [CHR ''-''] else []) @ str_nat (nat \<lfloor>\<bar>q\<bar>\<rfloor>) @ [CHR ''.'']
       @ (if \<bar>q\<bar> = of_int \<lfloor>\<bar>q\<bar>\<rfloor> then [CHR ''0'']
          else frac_digits 17 (\<bar>q\<bar> - of_int \<lfloor>\<bar>q\<bar>\<rfloor>))"

definition decimal_runtime :: "bool \<Rightarrow> rat runtime" where
  "decimal_runtime have_matplotlib =
     \<lparr>float_of = decimal_float, repr_of = decimal_repr, matplotlib = have_matplotlib\<rparr>"

subsection \<open>Example inputs\<close>

text \<open>The contents of the files the examples run on, and the starting state of a run.\<close>

definition website_csv :: string where
  "website_csv = ''a,Total Website,c,2020-01-01,,,16'' @ [LF]"

definition proj_csv :: string where
  "proj_csv =
     ''a,Total Alpha,c,2020-01-01,,,40'' @ [LF] @ ''a,Total Beta,c,2020-01-02,,,8'' @ [LF]
       @ ''a,Alpha,c,2020-01-01,Jane,Billable,4'' @ [LF]"


definition repeat_csv :: string where
  "repeat_csv = ''a,Total X,c,2020-01-01,,,8'' @ [LF] @ ''a,Total X,c,2020-01-02,,,24'' @ [LF]"

definition total_energies_csv :: string where
  "total_energies_csv = ''a,TotalEnergies,c,2020-01-01,Jane,Billable,4'' @ [LF]"

definition bad_csv :: string where
  "bad_csv = ''a,Total Alpha,c,2020-01-01,,,40'' @ [LF] @ ''a,Total Beta,c,2020-01-02,,,n/a'' @ [LF]"

definition world0 :: "rat world" where
  "world0 = \<lparr>info_log = [], opened = [], written = [], plt = []\<rparr>"

subsection \<open>Notions the properties are stated with\<close>

text \<open>
  A row is selected when the guard of the loop holds for it; its key is what the loop
  stores it under. \<open>first_seen\<close> lists the elements of a list in the order of
  their first occurrence, and \<open>rows_of\<close> are the rows the loop of \<^verbatim>\<open>parse_qb\<close>
  receives from a file.
\<close>

definition selected :: "row \<Rightarrow> bool" where
  "selected r = (case project r of None \<Rightarrow> False | Some p \<Rightarrow> startswith p ''Total'')"

definition key_of :: "row \<Rightarrow> string" where
  "key_of r = (case project r of None \<Rightarrow> [] | Some p \<Rightarrow> drop 6 p)"


definition rows_of :: "string list \<Rightarrow> row list" where
  "rows_of csv_file = DictReader (fst (csv_reader csv_file))"

text \<open>
  For the proofs the reader is followed through the text as a whole: \<open>feed\<close> sends the
  characters of a part of a line, and \<open>flat\<close> reads a text from a state of the
  machine, sending the end-of-line marker after each \<^verbatim>\<open>\n\<close> and after a last line
  that has none. \<open>mid\<close> tells whether the current line has characters already.
\<close>

fun feed :: "reader \<Rightarrow> string \<Rightarrow> error + reader" where
  "feed r [] = Inr r"
| "feed r (c # cs) =
     (case parse_process_char r (Some c) of Inl e \<Rightarrow> Inl e | Inr r' \<Rightarrow> feed r' cs)"

fun flat :: "reader \<Rightarrow> bool \<Rightarrow> string \<Rightarrow> row list \<times> error option" where
  "flat s mid [] =
     (if mid then
        (case parse_process_char s None of
           Inl e \<Rightarrow> ([], Some e)
         | Inr s' \<Rightarrow> if rstate s' = START_RECORD then ([rfields s'], None) else csv_rows s' [])
      else csv_rows s [])"
| "flat s mid (c # cs) =
     (case parse_process_char s (Some c) of
        Inl e \<Rightarrow> ([], Some e)
      | Inr s1 \<Rightarrow>
          if c = LF then
            (case parse_process_char s1 None of
               Inl e \<Rightarrow> ([], Some e)
             | Inr s2 \<Rightarrow>
                 if rstate s2 = START_RECORD
                 then (case flat parse_reset False cs of (rows, e) \<Rightarrow> (rfields s2 # rows, e))
                 else flat s2 False cs)
          else flat s1 True cs)"

text \<open>What the writer puts between the quotes of a field.\<close>

definition escape :: "string \<Rightarrow> string" where
  "escape f = concat (map (\<lambda>c. if c = quotechar then [quotechar, c] else [c]) f)"

text \<open>
  The paths \<^verbatim>\<open>process_files\<close> opens, in order, when nothing raises: the recursion of
  \<^verbatim>\<open>process_files\<close> without its effects.
\<close>

definition csv_name :: "string \<Rightarrow> bool" where
  "csv_name fin = (endswith fin ''.csv'' \<or> endswith fin ''.CSV'')"

function csv_paths :: "(string \<times> node) list \<Rightarrow> string list"
  and walk_paths :: "walk_item list \<Rightarrow> string list"
where
  "csv_paths [] = []"
| "csv_paths ((fin, n) # files) =
     (case n of
        Dir es \<Rightarrow> walk_paths (os_walk fin (Dir es)) @ csv_paths files
      | File content \<Rightarrow> (if csv_name fin then [fin] else []) @ csv_paths files)"
| "walk_paths [] = []"
| "walk_paths ((rootdir, dirnames, filenames) # ts) =
     csv_paths (join_all rootdir dirnames) @ csv_paths (join_all rootdir filenames) @ walk_paths ts"
  by pat_completeness auto
termination
  by (relation "measures
    [\<lambda>x. case x of Inl files \<Rightarrow> entry_size files | Inr ts \<Rightarrow> walk_size ts,
     \<lambda>x. case x of Inl _ \<Rightarrow> 0 | Inr _ \<Rightarrow> 1,
     \<lambda>x. case x of Inl files \<Rightarrow> length files | Inr ts \<Rightarrow> length ts]")
   (auto simp: entry_size_Cons walk_size_Cons entry_size_join_all less_Suc_eq_le walk_size_os_walk
      less_max_iff_disj simp del: node.size os_walk.simps)

text \<open>
  Names as a file system has them: not empty and without a slash, in a directory
  and everywhere below it.
\<close>

definition proper_name :: "string \<Rightarrow> bool" where
  "proper_name x = (x \<noteq> [] \<and> CHR ''/'' \<notin> set x)"

function proper_names :: "node \<Rightarrow> bool" where
  "proper_names (File c) = True"
| "proper_names (Dir es) = list_all (\<lambda>e. proper_name (fst e) \<and> proper_names (snd e)) es"
  by pat_completeness auto
termination
  by (relation "measure size") (auto dest: size_entry)

text \<open>
  A result is traced by a list of paths when the run has opened a prefix of the list
  and, if nothing was raised, all of it.
\<close>

definition traced :: "'v world \<Rightarrow> error option \<times> 'v world \<Rightarrow> string list \<Rightarrow> bool" where
  "traced w res full =
     (\<exists>ps qs. opened (snd res) = opened w @ ps \<and> full = ps @ qs \<and> (fst res = None \<longrightarrow> qs = []))"

text \<open>
  The output path of an input path, and what a run with this result has written: if
  nothing was raised, one output per path of the list, in order, unless export is
  off.
\<close>

definition out_csv :: "string \<Rightarrow> string" where
  "out_csv fin = splitext_root fin @ ''_out.csv''"

definition exported :: "args \<Rightarrow> 'v world \<Rightarrow> error option \<times> 'v world \<Rightarrow> string list \<Rightarrow> bool" where
  "exported a w res full =
     (fst res = None \<longrightarrow>
        map fst (written (snd res))
          = map fst (written w) @ (if no_export a then [] else map out_csv full))"

text \<open>A run on a directory visits what is below its subdirectories twice.\<close>

definition below :: "string \<Rightarrow> (string \<times> node) list \<Rightarrow> string list" where
  "below d es = concat (map (\<lambda>e. csv_paths [(join d (fst e), snd e)]) (dirnames_of es))"

section \<open>Properties\<close>

text \<open>The definitions a concrete run is evaluated with.\<close>

lemmas run_defs =
  open_text_def readlines_def parse_qb_def csv_reader_def parse_rows_def rows_of_def
  DictReader_def LF_def CR_def parse_process_char_def start_field_def is_eol_def end_of_field_def
  parse_save_field_def parse_add_char_def parse_reset_def delimiter_def quotechar_def
  project_def Duration_def getitem_def startswith_def endswith_def py_float_def
  decimal_runtime_def decimal_float_def unsigned_float_def digit_of_def OrderedDict_def
  py_sorted_def selected_def key_of_def

subsection \<open>Dictionaries and sorting\<close>

lemma map_of_dict_set: "map_of (dict_set d k v) = (map_of d)(k \<mapsto> v)"
  by (induction d) (auto simp: fun_eq_iff)

lemma keys_dict_set:
  "map fst (dict_set d k v) = (if k \<in> fst ` set d then map fst d else map fst d @ [k])"
proof (induction d)
  case Nil
  show ?case by simp
next
  case (Cons e d)
  obtain k' v' where e: "e = (k', v')" by (cases e)
  have "k \<in> fst ` set d \<Longrightarrow> \<exists>b. (k, b) \<in> set d" by auto
  with Cons show ?case by (cases "k' = k") (auto simp: e image_iff)
qed

lemma keys_dict_set_set: "fst ` set (dict_set d k v) = insert k (fst ` set d)"
  using arg_cong [OF keys_dict_set [of d k v], of set] by (auto split: if_splits)


lemma distinct_dict_set: "distinct (map fst d) \<Longrightarrow> distinct (map fst (dict_set d k v))"
  by (simp add: keys_dict_set)

lemma dict_set_fresh: "k \<notin> fst ` set d \<Longrightarrow> dict_set d k v = d @ [(k, v)]"
  by (induction d) auto

lemma OrderedDict_aux:
  "distinct (map fst (d @ ps)) \<Longrightarrow> foldl (\<lambda>d (k, v). dict_set d k v) d ps = d @ ps"
proof (induction ps arbitrary: d)
  case Nil
  show ?case by simp
next
  case (Cons p ps)
  obtain k v where p: "p = (k, v)" by (cases p)
  from Cons.prems have fresh: "k \<notin> fst ` set d" by (auto simp: p)
  from Cons.prems have "distinct (map fst ((d @ [(k, v)]) @ ps))" by (simp add: p)
  from Cons.IH [OF this] show ?case by (simp add: p dict_set_fresh [OF fresh])
qed

lemma OrderedDict_distinct: "distinct (map fst ps) \<Longrightarrow> OrderedDict ps = ps"
  using OrderedDict_aux [of "[]" ps] by (simp add: OrderedDict_def)

lemma distinct_map_insort:
  "distinct (map g (insort_key f x xs)) = (g x \<notin> g ` set xs \<and> distinct (map g xs))"
  by (induction xs) (auto simp: set_insort_key)

lemma distinct_map_sort: "distinct (map g (sort_key f xs)) = distinct (map g xs)"
  by (induction xs) (auto simp: distinct_map_insort)

lemma set_py_sorted: "set (py_sorted f b xs) = set xs"
  by (simp add: py_sorted_def)

lemma distinct_py_sorted: "distinct (map g (py_sorted f b xs)) = distinct (map g xs)"
  by (simp add: py_sorted_def distinct_map_sort rev_map [symmetric] del: rev_map)



subsection \<open>The loop of the extractor\<close>

lemma parse_loop_append:
  "parse_loop rt (xs @ ys) d =
     (case parse_loop rt xs d of Inl e \<Rightarrow> Inl e | Inr d1 \<Rightarrow> parse_loop rt ys d1)"
  by (induction xs arbitrary: d) (auto split: option.splits sum.splits)

lemma parse_loop_distinct:
  "parse_loop rt rs d = Inr d' \<Longrightarrow> distinct (map fst d) \<Longrightarrow> distinct (map fst d')"
  by (induction rs arbitrary: d)
     (auto split: option.splits sum.splits if_splits intro: distinct_dict_set)

lemma parse_loop_ok:
  "parse_loop rt rs d = Inr d' \<Longrightarrow> r \<in> set rs \<Longrightarrow>
     (\<exists>p. project r = Some p) \<and> (selected r \<longrightarrow> (\<exists>h. py_float rt (Duration r) = Inr h))"
  by (induction rs arbitrary: d)
     (auto simp: selected_def split: option.splits sum.splits if_splits)

lemma parse_loop_keys_mono:
  "parse_loop rt rs d = Inr d' \<Longrightarrow> fst ` set d \<subseteq> fst ` set d'"
proof (induction rs arbitrary: d)
  case Nil
  then show ?case by simp
next
  case (Cons r rs)
  obtain p where p: "project r = Some p" using Cons.prems by (auto split: option.splits)
  show ?case
  proof (cases "startswith p ''Total''")
    case True
    then obtain h where h: "py_float rt (Duration r) = Inr h"
      and rest: "parse_loop rt rs (dict_set d (drop 6 p) (h / 8)) = Inr d'"
      using Cons.prems p by (auto split: sum.splits)
    from Cons.IH [OF rest] show ?thesis by (auto simp: keys_dict_set_set)
  next
    case False
    then have "parse_loop rt rs d = Inr d'" using Cons.prems p by simp
    from Cons.IH [OF this] show ?thesis .
  qed
qed

lemma parse_loop_step:
  "parse_loop rt (r # rs) d = Inr d' \<Longrightarrow>
     (selected r \<and> (\<exists>h. py_float rt (Duration r) = Inr h \<and>
          parse_loop rt rs (dict_set d (key_of r) (h / 8)) = Inr d'))
     \<or> (\<not> selected r \<and> parse_loop rt rs d = Inr d')"
  by (auto simp: selected_def key_of_def split: option.splits sum.splits if_splits)

lemma parse_loop_unchanged:
  "parse_loop rt rs d = Inr d' \<Longrightarrow> \<forall>r\<in>set rs. selected r \<longrightarrow> key_of r \<noteq> k \<Longrightarrow>
     map_of d' k = map_of d k"
proof (induction rs arbitrary: d)
  case Nil
  then show ?case by simp
next
  case (Cons r rs)
  from parse_loop_step [OF Cons.prems(1)] show ?case
  proof (elim disjE conjE exE)
    fix h assume sel: "selected r"
      and rest: "parse_loop rt rs (dict_set d (key_of r) (h / 8)) = Inr d'"
    from Cons.prems(2) sel have ne: "key_of r \<noteq> k" by simp
    from Cons.IH [OF rest] Cons.prems(2)
    have "map_of d' k = map_of (dict_set d (key_of r) (h / 8)) k" by simp
    with ne show ?thesis by (simp add: map_of_dict_set)
  next
    assume "parse_loop rt rs d = Inr d'"
    from Cons.IH [OF this] Cons.prems(2) show ?thesis by simp
  qed
qed



lemma parse_rows_Inr:
  assumes "parse_rows rt rows rerr = Inr s"
  obtains days where "parse_loop rt (DictReader rows) [] = Inr days" "rerr = None"
    "s = py_sorted snd True days" "distinct (map fst days)"
proof -
  from assms obtain days where d: "parse_loop rt (DictReader rows) [] = Inr days"
    and n: "rerr = None" and s: "s = OrderedDict (py_sorted snd True days)"
    by (auto simp: parse_rows_def split: sum.splits option.splits)
  from parse_loop_distinct [OF d] have dist: "distinct (map fst days)" by simp
  then have "OrderedDict (py_sorted snd True days) = py_sorted snd True days"
    by (intro OrderedDict_distinct) (simp add: distinct_py_sorted)
  with d n s dist that show ?thesis by simp
qed

lemma parse_qb_Inr:
  assumes "parse_qb rt csv_file = Inr s"
  obtains days where "parse_loop rt (rows_of csv_file) [] = Inr days"
    "snd (csv_reader csv_file) = None"
    "s = py_sorted snd True days" "distinct (map fst days)"
proof -
  from assms have "parse_rows rt (fst (csv_reader csv_file)) (snd (csv_reader csv_file)) = Inr s"
    by (simp add: parse_qb_def split: prod.splits)
  from parse_rows_Inr [OF this] that show ?thesis by (auto simp: rows_of_def)
qed



lemma parse_loop_last:
  assumes loop: "parse_loop rt (before @ r # after) d = Inr d'"
    and sel: "selected r" and h: "py_float rt (Duration r) = Inr h"
    and later: "\<forall>r'\<in>set after. selected r' \<longrightarrow> key_of r' \<noteq> key_of r"
  shows "map_of d' (key_of r) = Some (h / 8)"
proof -
  from loop obtain d1 where d1: "parse_loop rt before d = Inr d1"
    and rest: "parse_loop rt (r # after) d1 = Inr d'"
    by (auto simp: parse_loop_append split: sum.splits)
  from parse_loop_step [OF rest] sel h
  have "parse_loop rt after (dict_set d1 (key_of r) (h / 8)) = Inr d'" by auto
  from parse_loop_unchanged [OF this later] show ?thesis by (simp add: map_of_dict_set)
qed


lemma parse_qb_rows_of:
  "parse_qb rt csv_file =
     (case parse_loop rt (rows_of csv_file) [] of
        Inl e \<Rightarrow> Inl e
      | Inr days \<Rightarrow>
          (case snd (csv_reader csv_file) of
             Some e \<Rightarrow> Inl e
           | None \<Rightarrow> Inr (OrderedDict (py_sorted snd True days))))"
  by (cases "csv_reader csv_file") (simp add: parse_qb_def parse_rows_def rows_of_def split: sum.splits)


lemma short_row_raises: "parse_qb rt (open_text (''Time by Job Summary'' @ [LF])) = Inl AttributeError"
  by (simp add: open_text_def readlines_def parse_qb_def csv_reader_def parse_rows_def
          DictReader_def LF_def CR_def parse_process_char_def start_field_def
          is_eol_def end_of_field_def parse_save_field_def parse_add_char_def parse_reset_def
          delimiter_def quotechar_def project_def getitem_def)

subsection \<open>The extractor: selection, transformation, order, repeated totals\<close>

text \<open>
  C1. The claim: a row contributes an entry only if its project label begins with the
  six characters \<^verbatim>\<open>Total \<close> (with the space), and every other row is skipped. The guard
  of the loop tests the five characters \<^verbatim>\<open>Total\<close>, and the next line removes six: a
  detail row of a project named \<^verbatim>\<open>TotalEnergies\<close>, whose label does not begin with
  \<^verbatim>\<open>Total \<close>, is not skipped. Its four hours enter the summary as half a day of a
  project \<^verbatim>\<open>nergies\<close>.
\<close>

theorem C1_label_without_space_is_selected:
  "\<not> startswith ''TotalEnergies'' ''Total '' \<and>
   rows_of (open_text total_energies_csv)
     = [[''a'', ''TotalEnergies'', ''c'', ''2020-01-01'', ''Jane'', ''Billable'', ''4'']] \<and>
   parse_qb (decimal_runtime False) (open_text total_energies_csv) = Inr [(''nergies'', 1 / 2)]"
  by (simp add: total_energies_csv_def run_defs)





text \<open>
  C4. When \<^verbatim>\<open>parse_qb\<close> returns a summary, no project stands in it twice; and when
  two selected rows have the same key and no selected row after the second has it,
  the summary holds for that key the second row's duration divided by 8 and no
  other value. In particular two rows \<^verbatim>\<open>Total X\<close> with durations \<^verbatim>\<open>8\<close> and then
  \<^verbatim>\<open>24\<close>, where \<^verbatim>\<open>float\<close> reads them as 8 and 24, yield \<^verbatim>\<open>X\<close> with 3.
\<close>

theorem C4_last_wins:
  assumes "parse_qb rt csv_file = Inr summary"
  shows "distinct (map fst summary)
       \<and> (\<forall>before r1 mid r2 after h2.
              rows_of csv_file = before @ r1 # mid @ r2 # after \<and> selected r1 \<and> selected r2 \<and>
              key_of r1 = key_of r2 \<and> py_float rt (Duration r2) = Inr h2 \<and>
              (\<forall>r\<in>set after. selected r \<longrightarrow> key_of r \<noteq> key_of r2)
              \<longrightarrow> (key_of r2, h2 / 8) \<in> set summary \<and>
                  (\<forall>v. (key_of r2, v) \<in> set summary \<longrightarrow> v = h2 / 8))
       \<and> (\<forall>before mid after x a c d n b a' c' d' n' b'.
              float_of rt ''8'' = Some 8 \<and> float_of rt ''24'' = Some 24 \<and>
              rows_of csv_file = before @ [a, ''Total '' @ x, c, d, n, b, ''8'']
                                   # mid @ [a', ''Total '' @ x, c', d', n', b', ''24''] # after \<and>
              (\<forall>r\<in>set after. selected r \<longrightarrow> key_of r \<noteq> x)
              \<longrightarrow> (x, 3) \<in> set summary \<and> (\<forall>v. (x, v) \<in> set summary \<longrightarrow> v = 3))"
proof -
  from assms obtain days where loop: "parse_loop rt (rows_of csv_file) [] = Inr days"
    and s: "summary = py_sorted snd True days" and dist: "distinct (map fst days)"
    by (rule parse_qb_Inr)
  have set_s: "set summary = set days" by (simp add: s set_py_sorted)
  have c1: "distinct (map fst summary)" using dist by (simp add: s distinct_py_sorted)
  have last_row: "(key_of r2, h2 / 8) \<in> set summary \<and>
                  (\<forall>v. (key_of r2, v) \<in> set summary \<longrightarrow> v = h2 / 8)"
    if "rows_of csv_file = before @ r1 # mid @ r2 # after" and "selected r2"
      and "py_float rt (Duration r2) = Inr h2"
      and "\<forall>r\<in>set after. selected r \<longrightarrow> key_of r \<noteq> key_of r2"
    for before r1 mid r2 after h2
  proof -
    from loop that(1) have "parse_loop rt ((before @ r1 # mid) @ r2 # after) [] = Inr days" by simp
    from parse_loop_last [OF this that(2,3,4)]
    have m: "map_of days (key_of r2) = Some (h2 / 8)" .
    then have mem: "(key_of r2, h2 / 8) \<in> set summary"
      unfolding set_s by (rule map_of_SomeD)
    have "\<forall>v. (key_of r2, v) \<in> set summary \<longrightarrow> v = h2 / 8"
    proof (intro allI impI)
      fix v assume "(key_of r2, v) \<in> set summary"
      then have "map_of days (key_of r2) = Some v" using dist by (simp add: set_s)
      with m show "v = h2 / 8" by simp
    qed
    with mem show ?thesis by simp
  qed
  have c2: "\<forall>before r1 mid r2 after h2.
              rows_of csv_file = before @ r1 # mid @ r2 # after \<and> selected r1 \<and> selected r2 \<and>
              key_of r1 = key_of r2 \<and> py_float rt (Duration r2) = Inr h2 \<and>
              (\<forall>r\<in>set after. selected r \<longrightarrow> key_of r \<noteq> key_of r2)
              \<longrightarrow> (key_of r2, h2 / 8) \<in> set summary \<and>
                  (\<forall>v. (key_of r2, v) \<in> set summary \<longrightarrow> v = h2 / 8)"
    using last_row by blast
  have c3: "\<forall>before mid after x a c d n b a' c' d' n' b'.
              float_of rt ''8'' = Some 8 \<and> float_of rt ''24'' = Some 24 \<and>
              rows_of csv_file = before @ [a, ''Total '' @ x, c, d, n, b, ''8'']
                                   # mid @ [a', ''Total '' @ x, c', d', n', b', ''24''] # after \<and>
              (\<forall>r\<in>set after. selected r \<longrightarrow> key_of r \<noteq> x)
              \<longrightarrow> (x, 3) \<in> set summary \<and> (\<forall>v. (x, v) \<in> set summary \<longrightarrow> v = 3)"
  proof (intro allI impI, elim conjE)
    fix before mid after x a c d n b a' c' d' n' b'
    let ?r1 = "[a, ''Total '' @ x, c, d, n, b, ''8'']"
    let ?r2 = "[a', ''Total '' @ x, c', d', n', b', ''24'']"
    assume f: "float_of rt ''24'' = Some 24"
      and rows: "rows_of csv_file = before @ ?r1 # mid @ ?r2 # after"
      and later: "\<forall>r\<in>set after. selected r \<longrightarrow> key_of r \<noteq> x"
    have sel: "selected ?r2" by (simp add: selected_def project_def getitem_def startswith_def)
    have k: "key_of ?r2 = x" by (simp add: key_of_def project_def getitem_def)
    have h: "py_float rt (Duration ?r2) = Inr 24"
      using f by (simp add: py_float_def Duration_def getitem_def)
    from last_row [OF rows sel h] later k
    show "(x, 3) \<in> set summary \<and> (\<forall>v. (x, v) \<in> set summary \<longrightarrow> v = 3)" by simp
  qed
  from c1 c2 c3 show ?thesis by (intro conjI)
qed

theorem C4_last_wins_witness:
  "parse_qb (decimal_runtime False) (open_text repeat_csv) = Inr [(''X'', 3)] \<and>
   float_of (decimal_runtime False) ''8'' = Some 8 \<and>
   float_of (decimal_runtime False) ''24'' = Some 24 \<and>
   rows_of (open_text repeat_csv) =
     [] @ [''a'', ''Total '' @ ''X'', ''c'', ''2020-01-01'', [], [], ''8''] # []
        @ [''a'', ''Total '' @ ''X'', ''c'', ''2020-01-02'', [], [], ''24''] # [] \<and>
   (''X'', 3) \<in> set [(''X'', 3 :: rat)] \<and>
   distinct (map fst [(''X'', 3 :: rat)])"
proof -
  have p: "parse_qb (decimal_runtime False) (open_text repeat_csv) = Inr [(''X'', 3)]"
    by (simp add: repeat_csv_def run_defs)
  have f8: "float_of (decimal_runtime False) ''8'' = Some 8" by (simp add: run_defs)
  have f24: "float_of (decimal_runtime False) ''24'' = Some 24" by (simp add: run_defs)
  have rows: "rows_of (open_text repeat_csv) =
     [] @ [''a'', ''Total '' @ ''X'', ''c'', ''2020-01-01'', [], [], ''8''] # []
        @ [''a'', ''Total '' @ ''X'', ''c'', ''2020-01-02'', [], [], ''24''] # []"
    by (simp add: repeat_csv_def run_defs)
  note dist = C4_last_wins [OF p, THEN conjunct1]
  note example = C4_last_wins [OF p, THEN conjunct2, THEN conjunct2, rule_format,
      of "[]" "''a''" "''X''" "''c''" "''2020-01-01''" "[]" "[]" "[]"
         "''a''" "''c''" "''2020-01-02''" "[]" "[]" "[]", THEN conjunct1]
  have "(''X'', 3) \<in> set [(''X'', 3 :: rat)]"
    using example f8 f24 rows by simp
  with p f8 f24 rows dist show ?thesis by simp
qed

subsection \<open>The reader, character by character\<close>

lemma feed_append:
  "feed r (xs @ ys) = (case feed r xs of Inl e \<Rightarrow> Inl e | Inr s \<Rightarrow> feed s ys)"
  by (induction xs arbitrary: r) (auto split: sum.splits)

lemma process_line_feed:
  "process_line r l = (case feed r l of Inl e \<Rightarrow> Inl e | Inr s \<Rightarrow> parse_process_char s None)"
  by (induction l arbitrary: r) (auto split: sum.splits)

lemma splitlines_head:
  "cur \<noteq> [] \<Longrightarrow> \<exists>pre more. splitlines cur rest = (cur @ pre) # more"
proof (induction rest arbitrary: cur)
  case Nil
  then show ?case by simp
next
  case (Cons c rest)
  show ?case
  proof (cases "c = LF")
    case True
    then show ?thesis by simp
  next
    case False
    from Cons.IH [of "cur @ [c]"] obtain pre more
      where "splitlines (cur @ [c]) rest = ((cur @ [c]) @ pre) # more" by auto
    with False show ?thesis by simp
  qed
qed

lemma csv_rows_feed_error:
  assumes "feed r cur = Inl e" and "cur \<noteq> []"
  shows "csv_rows r (splitlines cur rest) = ([], Some e)"
proof -
  from splitlines_head [OF assms(2)] obtain pre more
    where sl: "splitlines cur rest = (cur @ pre) # more" by blast
  have "process_line r (cur @ pre) = Inl e"
    using assms(1) by (simp add: process_line_feed feed_append)
  with sl show ?thesis by simp
qed

lemma csv_rows_flat:
  "feed r cur = Inr s \<Longrightarrow> csv_rows r (splitlines cur rest) = flat s (cur \<noteq> []) rest"
proof (induction rest arbitrary: r cur s)
  case Nil
  show ?case
  proof (cases "cur = []")
    case True
    with Nil show ?thesis by simp
  next
    case False
    have "csv_rows parse_reset [] = ([], None)" by (simp add: parse_reset_def)
    with False Nil show ?thesis
      by (simp add: process_line_feed split: sum.splits del: csv_rows.simps(1))
  qed
next
  case (Cons c cs)
  show ?case
  proof (cases "c = LF")
    case True
    have pl: "process_line r (cur @ [LF]) =
                (case parse_process_char s (Some LF) of
                   Inl e \<Rightarrow> Inl e | Inr s1 \<Rightarrow> parse_process_char s1 None)"
      using Cons.prems by (simp add: process_line_feed feed_append split: sum.splits)
    have reset: "csv_rows parse_reset (splitlines [] cs) = flat parse_reset False cs"
      using Cons.IH [of parse_reset "[]" parse_reset] by simp
    have cont: "\<And>s2. csv_rows s2 (splitlines [] cs) = flat s2 False cs"
      using Cons.IH [of _ "[]"] by simp
    have sl: "splitlines cur (c # cs) = (cur @ [LF]) # splitlines [] cs"
      using True by simp
    show ?thesis
    proof (cases "parse_process_char s (Some LF)")
      case (Inl e)
      then show ?thesis unfolding sl using True by (simp add: pl)
    next
      case s1: (Inr s1)
      show ?thesis
      proof (cases "parse_process_char s1 None")
        case (Inl e)
        then show ?thesis unfolding sl using True s1 by (simp add: pl)
      next
        case (Inr s2)
        then show ?thesis unfolding sl using True s1 by (simp add: pl reset cont)
      qed
    qed
  next
    case False
    show ?thesis
    proof (cases "parse_process_char s (Some c)")
      case (Inl e)
      then have "feed r (cur @ [c]) = Inl e" using Cons.prems by (simp add: feed_append)
      from csv_rows_feed_error [OF this] have "csv_rows r (splitlines (cur @ [c]) cs) = ([], Some e)"
        by simp
      with False Inl show ?thesis by simp
    next
      case (Inr s1)
      then have "feed r (cur @ [c]) = Inr s1" using Cons.prems by (simp add: feed_append)
      from Cons.IH [OF this] False Inr show ?thesis by simp
    qed
  qed
qed

lemma csv_reader_flat: "csv_reader (readlines t) = flat parse_reset False t"
  using csv_rows_flat [of parse_reset "[]" parse_reset t] by (simp add: csv_reader_def readlines_def)

lemma quote_field_escape: "quote_field f = quotechar # escape f @ [quotechar]"
  by (simp add: quote_field_def escape_def)

lemma escape_Cons:
  "escape (c # f) = (if c = quotechar then quotechar # quotechar # escape f else c # escape f)"
  by (simp add: escape_def)

lemma chars_distinct:
  "quotechar \<noteq> LF" "quotechar \<noteq> CR" "delimiter \<noteq> quotechar" "delimiter \<noteq> LF" "delimiter \<noteq> CR"
  by (simp_all add: quotechar_def LF_def CR_def delimiter_def)

lemma in_quoted_char:
  "rstate s = IN_QUOTED_FIELD \<Longrightarrow> c \<noteq> quotechar \<Longrightarrow>
     parse_process_char s (Some c) = Inr (s\<lparr>field_buf := field_buf s @ [c]\<rparr>)"
  by (simp add: parse_process_char_def parse_add_char_def)

lemma in_quoted_quote:
  "rstate s = IN_QUOTED_FIELD \<Longrightarrow>
     parse_process_char s (Some quotechar) = Inr (s\<lparr>rstate := QUOTE_IN_QUOTED_FIELD\<rparr>)"
  by (simp add: parse_process_char_def)

lemma in_quoted_eol:
  "rstate s = IN_QUOTED_FIELD \<Longrightarrow> parse_process_char s None = Inr s"
  by (simp add: parse_process_char_def)

lemma quote_quote:
  "rstate s = QUOTE_IN_QUOTED_FIELD \<Longrightarrow>
     parse_process_char s (Some quotechar)
       = Inr (s\<lparr>field_buf := field_buf s @ [quotechar], rstate := IN_QUOTED_FIELD\<rparr>)"
  by (simp add: parse_process_char_def parse_add_char_def)

lemma quote_delimiter:
  "rstate s = QUOTE_IN_QUOTED_FIELD \<Longrightarrow>
     parse_process_char s (Some delimiter)
       = Inr (s\<lparr>rfields := rfields s @ [field_buf s], field_buf := [], rstate := START_FIELD\<rparr>)"
  by (simp add: parse_process_char_def parse_save_field_def chars_distinct)

lemma quote_LF:
  "rstate s = QUOTE_IN_QUOTED_FIELD \<Longrightarrow>
     parse_process_char s (Some LF)
       = Inr (s\<lparr>rfields := rfields s @ [field_buf s], field_buf := [], rstate := EAT_CRNL\<rparr>)"
  using chars_distinct
  by (auto simp: parse_process_char_def parse_save_field_def end_of_field_def is_eol_def)

lemma eat_eol:
  "rstate s = EAT_CRNL \<Longrightarrow> parse_process_char s None = Inr (s\<lparr>rstate := START_RECORD\<rparr>)"
  by (simp add: parse_process_char_def)

lemma start_quote:
  "rstate s = START_RECORD \<or> rstate s = START_FIELD \<Longrightarrow>
     parse_process_char s (Some quotechar) = Inr (s\<lparr>rstate := IN_QUOTED_FIELD\<rparr>)"
  using chars_distinct
  by (auto simp: parse_process_char_def start_field_def is_eol_def)

lemma flat_escape:
  "rstate s = IN_QUOTED_FIELD \<Longrightarrow>
     flat s mid (escape f @ quotechar # rest)
       = flat (s\<lparr>field_buf := field_buf s @ f, rstate := QUOTE_IN_QUOTED_FIELD\<rparr>) True rest"
proof (induction f arbitrary: s mid)
  case Nil
  then show ?case by (simp add: escape_def in_quoted_quote chars_distinct)
next
  case (Cons c f)
  show ?case
  proof (cases "c = quotechar")
    case True
    let ?s2 = "s\<lparr>field_buf := field_buf s @ [quotechar], rstate := IN_QUOTED_FIELD\<rparr>"
    have "flat s mid (escape (c # f) @ quotechar # rest) = flat ?s2 True (escape f @ quotechar # rest)"
      using True Cons.prems
      by (simp add: escape_Cons in_quoted_quote quote_quote chars_distinct)
    also have "\<dots> = flat (?s2\<lparr>field_buf := field_buf ?s2 @ f, rstate := QUOTE_IN_QUOTED_FIELD\<rparr>) True rest"
      by (rule Cons.IH) simp
    finally show ?thesis using True by simp
  next
    case False
    let ?s1 = "s\<lparr>field_buf := field_buf s @ [c]\<rparr>"
    have st: "rstate ?s1 = IN_QUOTED_FIELD" using Cons.prems by simp
    have "flat s mid (escape (c # f) @ quotechar # rest)
            = flat ?s1 (c \<noteq> LF) (escape f @ quotechar # rest)"
      using False Cons.prems st
      by (simp add: escape_Cons in_quoted_char in_quoted_eol)
    also have "\<dots> = flat (?s1\<lparr>field_buf := field_buf ?s1 @ f, rstate := QUOTE_IN_QUOTED_FIELD\<rparr>) True rest"
      using st by (rule Cons.IH)
    finally show ?thesis by simp
  qed
qed

lemma flat_row:
  "rstate s = START_RECORD \<or> rstate s = START_FIELD \<Longrightarrow> field_buf s = [] \<Longrightarrow>
     flat s mid (join_fields (map quote_field (f # fs)) @ LF # rest)
       = (case flat parse_reset False rest of (rows, e) \<Rightarrow> ((rfields s @ f # fs) # rows, e))"
proof (induction fs arbitrary: s mid f)
  case Nil
  let ?s1 = "s\<lparr>rstate := IN_QUOTED_FIELD\<rparr>"
  let ?s2 = "?s1\<lparr>field_buf := field_buf ?s1 @ f, rstate := QUOTE_IN_QUOTED_FIELD\<rparr>"
  have "flat s mid (join_fields (map quote_field [f]) @ LF # rest)
          = flat ?s1 True (escape f @ quotechar # LF # rest)"
    using Nil.prems(1) by (simp add: quote_field_escape start_quote chars_distinct)
  also have "\<dots> = flat ?s2 True (LF # rest)"
    by (rule flat_escape) simp
  also have "\<dots> = (case flat parse_reset False rest of (rows, e) \<Rightarrow> ((rfields s @ [f]) # rows, e))"
    using Nil.prems(2) by (simp add: quote_LF eat_eol)
  finally show ?case .
next
  case (Cons g fs)
  let ?s1 = "s\<lparr>rstate := IN_QUOTED_FIELD\<rparr>"
  let ?s2 = "?s1\<lparr>field_buf := field_buf ?s1 @ f, rstate := QUOTE_IN_QUOTED_FIELD\<rparr>"
  let ?s3 = "?s2\<lparr>rfields := rfields ?s2 @ [field_buf ?s2], field_buf := [], rstate := START_FIELD\<rparr>"
  let ?tail = "join_fields (map quote_field (g # fs)) @ LF # rest"
  have "flat s mid (join_fields (map quote_field (f # g # fs)) @ LF # rest)
          = flat ?s1 True (escape f @ quotechar # delimiter # ?tail)"
    using Cons.prems(1) by (simp add: quote_field_escape start_quote chars_distinct)
  also have "\<dots> = flat ?s2 True (delimiter # ?tail)"
    by (rule flat_escape) simp
  also have "\<dots> = flat ?s3 True ?tail"
    by (simp add: quote_delimiter chars_distinct)
  also have "\<dots> = (case flat parse_reset False rest of
                      (rows, e) \<Rightarrow> ((rfields ?s3 @ g # fs) # rows, e))"
    by (rule Cons.IH) simp_all
  finally show ?case using Cons.prems(2) by simp
qed

lemma flat_rows:
  "\<forall>r\<in>set rows. r \<noteq> [] \<Longrightarrow> flat parse_reset False (concat (map writerow rows)) = (rows, None)"
proof (induction rows)
  case Nil
  show ?case by (simp add: parse_reset_def)
next
  case (Cons r rows)
  from Cons.prems obtain f fs where r: "r = f # fs" by (cases r) auto
  have st: "rstate parse_reset = START_RECORD \<or> rstate parse_reset = START_FIELD"
    and fb: "field_buf parse_reset = []" and rf: "rfields parse_reset = []"
    by (simp_all add: parse_reset_def)
  from Cons.prems have IH: "flat parse_reset False (concat (map writerow rows)) = (rows, None)"
    by (intro Cons.IH) simp
  have w: "writerow (f # fs) = join_fields (map quote_field (f # fs)) @ [LF]"
    by (simp add: writerow_def)
  show ?case
    using flat_row [OF st fb, of False f fs "concat (map writerow rows)"]
    by (simp add: w IH rf r)
qed

lemma csv_text_rows:
  "csv_text rt summary
     = concat (map writerow ([''Project'', ''Days''] # map (\<lambda>(p, t). [p, repr_of rt t]) summary))"
  by (simp add: csv_text_def split_def comp_def)

lemma universal_newlines_id: "CR \<notin> set t \<Longrightarrow> universal_newlines t = t"
  by (induction t rule: universal_newlines.induct) auto

subsection \<open>The reporters and the traversal\<close>

lemma splitext_proj: "splitext_root ''proj.csv'' = ''proj''"
  by code_simp

lemma repr_examples: "decimal_repr 5 = ''5.0''" "decimal_repr 1 = ''1.0''"
  by code_simp+

lemmas io_defs =
  process_file_def create_chart_def logging_info_def plt_do_def write_csv_def csv_text_def
  writerow_def quote_field_def world0_def join_def join_all_def dirnames_of_def filenames_of_def
  Let_def

lemma parse_loop_fails:
  assumes "r \<in> set rs" "selected r" "py_float rt (Duration r) = Inl e0"
  shows "\<exists>e. parse_loop rt rs d = Inl e"
proof (cases "parse_loop rt rs d")
  case (Inl e)
  then show ?thesis by simp
next
  case (Inr d')
  from parse_loop_ok [OF Inr assms(1)] assms(2,3) show ?thesis by simp
qed

lemma parse_loop_error_kind:
  "parse_loop rt rs d = Inl e \<Longrightarrow> \<forall>r\<in>set rs. 7 \<le> length r \<Longrightarrow> e = ValueError"
proof (induction rs arbitrary: d)
  case Nil
  then show ?case by simp
next
  case (Cons r rs)
  from Cons.prems(2) have len: "7 \<le> length r" by simp
  then obtain p where p: "project r = Some p" by (simp add: project_def getitem_def)
  from len obtain s where s: "Duration r = Some s" by (simp add: Duration_def getitem_def)
  show ?case
  proof (cases "startswith p ''Total''")
    case True
    show ?thesis
    proof (cases "float_of rt s")
      case None
      with Cons.prems(1) p s True show ?thesis by (simp add: py_float_def)
    next
      case (Some h)
      with Cons.prems(1) p s True
      have "parse_loop rt rs (dict_set d (drop 6 p) (h / 8)) = Inl e" by (simp add: py_float_def)
      from Cons.IH [OF this] Cons.prems(2) show ?thesis by simp
    qed
  next
    case False
    with Cons.prems(1) p have "parse_loop rt rs d = Inl e" by simp
    from Cons.IH [OF this] Cons.prems(2) show ?thesis by simp
  qed
qed

text \<open>
  C5. The claim: when matplotlib is missing and a chart is asked for, the fact is
  reported, nothing crashes and the CSV of the file is still written. The handler in
  \<^verbatim>\<open>create_chart\<close> logs the message and the function goes on without the modules:
  the run on \<^verbatim>\<open>proj.csv\<close> with \<^verbatim>\<open>--plot\<close> ends with UnboundLocalError after the
  message, and no file is written.
\<close>

theorem C5_missing_matplotlib_raises:
  "process_files (decimal_runtime False) \<lparr>plot = True, save_plot = False, no_export = False\<rparr>
     [(''proj.csv'', File proj_csv)] world0 =
   (Some UnboundLocalError,
    \<lparr>info_log = [''Processing proj.csv'',
                  ''Cannot create chart because matplotlib or numpy is not installed.''],
     opened = [''proj.csv''], written = [], plt = []\<rparr>)"
  by (simp add: proj_csv_def io_defs run_defs)

text \<open>
  C6. A file with a \<^verbatim>\<open>.csv\<close> name that has a selected row whose duration \<^verbatim>\<open>float\<close>
  rejects: \<^verbatim>\<open>parse_qb\<close> raises, \<^verbatim>\<open>process_files\<close> ends with that exception at this
  file, having logged and opened it and nothing else: no file is written and no
  chart is drawn. When every row has its seven fields the exception is ValueError.
\<close>

theorem C6_bad_duration_aborts:
  assumes "endswith fin ''.csv'' \<or> endswith fin ''.CSV''"
    and "r \<in> set (rows_of (open_text content))" and "selected r"
    and "Duration r = Some s" and "float_of rt s = None"
  shows "\<exists>e. parse_qb rt (open_text content) = Inl e
           \<and> process_files rt a ((fin, File content) # files) w
               = (Some e, (logging_info (''Processing '' @ fin) w)\<lparr>opened := opened w @ [fin]\<rparr>)
           \<and> written (snd (process_files rt a ((fin, File content) # files) w)) = written w
           \<and> plt (snd (process_files rt a ((fin, File content) # files) w)) = plt w
           \<and> ((\<forall>r'\<in>set (rows_of (open_text content)). 7 \<le> length r') \<longrightarrow> e = ValueError)"
proof -
  have "py_float rt (Duration r) = Inl ValueError" using assms(4,5) by (simp add: py_float_def)
  from parse_loop_fails [OF assms(2,3) this]
  obtain e where loop: "parse_loop rt (rows_of (open_text content)) [] = Inl e" by blast
  then have p: "parse_qb rt (open_text content) = Inl e" by (simp add: parse_qb_rows_of)
  have run: "process_files rt a ((fin, File content) # files) w
               = (Some e, (logging_info (''Processing '' @ fin) w)\<lparr>opened := opened w @ [fin]\<rparr>)"
    using assms(1) p by (auto simp: process_file_def Let_def)
  have kind: "(\<forall>r'\<in>set (rows_of (open_text content)). 7 \<le> length r') \<longrightarrow> e = ValueError"
    using parse_loop_error_kind [OF loop] by blast
  from p run kind show ?thesis by (auto simp: logging_info_def)
qed

theorem C6_bad_duration_aborts_witness:
  "endswith ''bad.csv'' ''.csv'' \<and>
   [''a'', ''Total Beta'', ''c'', ''2020-01-02'', [], [], ''n/a''] \<in> set (rows_of (open_text bad_csv)) \<and>
   selected [''a'', ''Total Beta'', ''c'', ''2020-01-02'', [], [], ''n/a''] \<and>
   Duration [''a'', ''Total Beta'', ''c'', ''2020-01-02'', [], [], ''n/a''] = Some ''n/a'' \<and>
   float_of (decimal_runtime True) ''n/a'' = None \<and>
   (\<exists>e. parse_qb (decimal_runtime True) (open_text bad_csv) = Inl e \<and>
        process_files (decimal_runtime True) \<lparr>plot = True, save_plot = True, no_export = False\<rparr>
          [(''bad.csv'', File bad_csv), (''proj.csv'', File proj_csv)] world0
          = (Some e, \<lparr>info_log = [''Processing bad.csv''], opened = [''bad.csv''],
                       written = [], plt = []\<rparr>))"
proof -
  let ?r = "[''a'', ''Total Beta'', ''c'', ''2020-01-02'', [], [], ''n/a'']"
  have h1: "endswith ''bad.csv'' ''.csv'' \<or> endswith ''bad.csv'' ''.CSV''" by (simp add: endswith_def)
  have h2: "?r \<in> set (rows_of (open_text bad_csv))" by (simp add: bad_csv_def run_defs)
  have h3: "selected ?r" by (simp add: run_defs)
  have h4: "Duration ?r = Some ''n/a''" by (simp add: run_defs)
  have h5: "float_of (decimal_runtime True) ''n/a'' = None" by (simp add: run_defs)
  from C6_bad_duration_aborts [OF h1 h2 h3 h4 h5,
      of "\<lparr>plot = True, save_plot = True, no_export = False\<rparr>" "[(''proj.csv'', File proj_csv)]" world0]
  obtain e where "parse_qb (decimal_runtime True) (open_text bad_csv) = Inl e"
    and "process_files (decimal_runtime True) \<lparr>plot = True, save_plot = True, no_export = False\<rparr>
          [(''bad.csv'', File bad_csv), (''proj.csv'', File proj_csv)] world0
          = (Some e, (logging_info (''Processing '' @ ''bad.csv'') world0)\<lparr>opened := opened world0 @ [''bad.csv'']\<rparr>)"
    by blast
  then have "\<exists>e. parse_qb (decimal_runtime True) (open_text bad_csv) = Inl e \<and>
        process_files (decimal_runtime True) \<lparr>plot = True, save_plot = True, no_export = False\<rparr>
          [(''bad.csv'', File bad_csv), (''proj.csv'', File proj_csv)] world0
          = (Some e, \<lparr>info_log = [''Processing bad.csv''], opened = [''bad.csv''],
                       written = [], plt = []\<rparr>)"
    by (auto simp: logging_info_def world0_def)
  with h2 h3 h4 h5 show ?thesis by (simp add: endswith_def)
qed

text \<open>
  C7. End to end, for a runtime where \<^verbatim>\<open>float\<close> reads \<^verbatim>\<open>40\<close> and \<^verbatim>\<open>8\<close> as 40 and 8
  and the texts of 5 and 1 are \<^verbatim>\<open>5.0\<close> and \<^verbatim>\<open>1.0\<close>: the file \<^verbatim>\<open>proj.csv\<close> with the
  three rows of the claim has the summary Alpha 5, Beta 1 in this order, and with
  export enabled the run writes \<^verbatim>\<open>proj_out.csv\<close>, whose three lines are the fields
  \<^verbatim>\<open>Project\<close> and \<^verbatim>\<open>Days\<close>, \<^verbatim>\<open>Alpha\<close> and \<^verbatim>\<open>5.0\<close>, \<^verbatim>\<open>Beta\<close> and \<^verbatim>\<open>1.0\<close>, each field between
  double quotes (character 0x22) as the dialect of the writer asks, separated by a
  comma. Read as CSV the file has the records \<^verbatim>\<open>Project,Days\<close>, \<^verbatim>\<open>Alpha,5.0\<close> and
  \<^verbatim>\<open>Beta,1.0\<close>.
\<close>

theorem C7_end_to_end:
  assumes "float_of rt ''40'' = Some 40" and "float_of rt ''8'' = Some 8"
    and "repr_of rt 5 = ''5.0''" and "repr_of rt 1 = ''1.0''"
    and "\<not> no_export a" and "plot a \<or> save_plot a \<longrightarrow> matplotlib rt"
  shows "parse_qb rt (open_text proj_csv) = Inr [(''Alpha'', 5), (''Beta'', 1)]
       \<and> fst (process_files rt a [(''proj.csv'', File proj_csv)] w) = None
       \<and> written (snd (process_files rt a [(''proj.csv'', File proj_csv)] w))
           = written w @
             [(''proj_out.csv'',
               [CHR 0x22] @ ''Project'' @ [CHR 0x22] @ '','' @ [CHR 0x22] @ ''Days'' @ [CHR 0x22, CHR 0x0A]
               @ [CHR 0x22] @ ''Alpha'' @ [CHR 0x22] @ '','' @ [CHR 0x22] @ ''5.0'' @ [CHR 0x22, CHR 0x0A]
               @ [CHR 0x22] @ ''Beta'' @ [CHR 0x22] @ '','' @ [CHR 0x22] @ ''1.0'' @ [CHR 0x22, CHR 0x0A])]
       \<and> csv_reader (readlines (snd (last (written (snd (process_files rt a [(''proj.csv'', File proj_csv)] w))))))
           = ([[''Project'', ''Days''], [''Alpha'', ''5.0''], [''Beta'', ''1.0'']], None)"
proof -
  let ?s = "[(''Alpha'', 5), (''Beta'', 1)] :: (string \<times> 'a) list"
  have p: "parse_qb rt (open_text proj_csv) = Inr ?s"
    using assms(1,2)
    by (simp add: proj_csv_def open_text_def readlines_def parse_qb_def csv_reader_def
          parse_rows_def DictReader_def LF_def CR_def parse_process_char_def start_field_def
          is_eol_def end_of_field_def parse_save_field_def parse_add_char_def parse_reset_def
          delimiter_def quotechar_def project_def Duration_def getitem_def startswith_def
          py_float_def OrderedDict_def py_sorted_def)
  have out: "csv_text rt ?s =
               [CHR 0x22] @ ''Project'' @ [CHR 0x22] @ '','' @ [CHR 0x22] @ ''Days'' @ [CHR 0x22, CHR 0x0A]
               @ [CHR 0x22] @ ''Alpha'' @ [CHR 0x22] @ '','' @ [CHR 0x22] @ ''5.0'' @ [CHR 0x22, CHR 0x0A]
               @ [CHR 0x22] @ ''Beta'' @ [CHR 0x22] @ '','' @ [CHR 0x22] @ ''1.0'' @ [CHR 0x22, CHR 0x0A]"
    using assms(3,4) by (simp add: csv_text_def writerow_def quote_field_def quotechar_def LF_def delimiter_def)
  have run: "fst (process_files rt a [(''proj.csv'', File proj_csv)] w) = None
       \<and> written (snd (process_files rt a [(''proj.csv'', File proj_csv)] w))
           = written w @ [(''proj_out.csv'', csv_text rt ?s)]"
    using assms(5,6) p
    by (cases "plot a"; cases "save_plot a")
       (simp_all add: endswith_def process_file_def create_chart_def logging_info_def plt_do_def
          write_csv_def splitext_proj Let_def)
  have reread: "csv_reader (readlines (csv_text rt ?s))
           = ([[''Project'', ''Days''], [''Alpha'', ''5.0''], [''Beta'', ''1.0'']], None)"
    using assms(3,4) flat_rows [of "[''Project'', ''Days''] # map (\<lambda>(p, t). [p, repr_of rt t]) ?s"]
    by (simp add: csv_reader_flat csv_text_rows)
  from p run reread show ?thesis by (simp add: out)
qed

theorem C7_end_to_end_witness:
  "float_of (decimal_runtime False) ''40'' = Some 40 \<and>
   float_of (decimal_runtime False) ''8'' = Some 8 \<and>
   repr_of (decimal_runtime False) 5 = ''5.0'' \<and> repr_of (decimal_runtime False) 1 = ''1.0'' \<and>
   parse_qb (decimal_runtime False) (open_text proj_csv) = Inr [(''Alpha'', 5), (''Beta'', 1)] \<and>
   fst (process_files (decimal_runtime False) \<lparr>plot = False, save_plot = False, no_export = False\<rparr>
          [(''proj.csv'', File proj_csv)] world0) = None \<and>
   map fst (written (snd (process_files (decimal_runtime False)
          \<lparr>plot = False, save_plot = False, no_export = False\<rparr>
          [(''proj.csv'', File proj_csv)] world0))) = [''proj_out.csv'']"
proof -
  let ?rt = "decimal_runtime False"
  let ?a = "\<lparr>plot = False, save_plot = False, no_export = False\<rparr>"
  have h1: "float_of ?rt ''40'' = Some 40" by (simp add: run_defs)
  have h2: "float_of ?rt ''8'' = Some 8" by (simp add: run_defs)
  have h3: "repr_of ?rt 5 = ''5.0''" by (simp add: decimal_runtime_def repr_examples)
  have h4: "repr_of ?rt 1 = ''1.0''" by (simp add: decimal_runtime_def repr_examples)
  have h5: "\<not> no_export ?a" by simp
  have h6: "plot ?a \<or> save_plot ?a \<longrightarrow> matplotlib ?rt" by simp
  note run = C7_end_to_end [OF h1 h2 h3 h4 h5 h6, of world0]
  from run have "map fst (written (snd (process_files ?rt ?a [(''proj.csv'', File proj_csv)] world0)))
                  = [''proj_out.csv'']"
    by (simp add: world0_def)
  with h1 h2 h3 h4 run show ?thesis by simp
qed

text \<open>
  The lines of the file this run writes are not \<^verbatim>\<open>Project,Days\<close>, \<^verbatim>\<open>Alpha,5.0\<close> and
  \<^verbatim>\<open>Beta,1.0\<close>, the lines that claim C7 lists: they hold the same fields in quotes.
\<close>

theorem C7_unquoted_lines_counterexample:
  "readlines (snd (last (written (snd (process_files (decimal_runtime False)
       \<lparr>plot = False, save_plot = False, no_export = False\<rparr>
       [(''proj.csv'', File proj_csv)] world0)))))
     \<noteq> [''Project,Days'' @ [LF], ''Alpha,5.0'' @ [LF], ''Beta,1.0'' @ [LF]] \<and>
   readlines (snd (last (written (snd (process_files (decimal_runtime False)
       \<lparr>plot = False, save_plot = False, no_export = False\<rparr>
       [(''proj.csv'', File proj_csv)] world0)))))
     = [[CHR 0x22] @ ''Project'' @ [CHR 0x22] @ '','' @ [CHR 0x22] @ ''Days'' @ [CHR 0x22, LF],
        [CHR 0x22] @ ''Alpha'' @ [CHR 0x22] @ '','' @ [CHR 0x22] @ ''5.0'' @ [CHR 0x22, LF],
        [CHR 0x22] @ ''Beta'' @ [CHR 0x22] @ '','' @ [CHR 0x22] @ ''1.0'' @ [CHR 0x22, LF]]"
  by (simp add: proj_csv_def io_defs run_defs splitext_proj repr_examples)

text \<open>
  C8. The text \<^verbatim>\<open>write_csv\<close> writes for a summary, read back by \<^verbatim>\<open>csv.reader\<close>, is the
  header row followed by one row per entry, in the summary's order, holding the
  project and the text of its total; so the projects and totals are recovered, in
  order, whenever \<^verbatim>\<open>float\<close> reads the text of each total back as that total. Reading
  with universal newlines gives the same rows when the text has no \<^verbatim>\<open>\r\<close>.
\<close>

theorem C8_round_trip:
  "snd (last (written (write_csv rt fin summary w))) = csv_text rt summary
   \<and> csv_reader (readlines (csv_text rt summary))
        = ([''Project'', ''Days''] # map (\<lambda>(p, t). [p, repr_of rt t]) summary, None)
   \<and> ((\<forall>(p, t)\<in>set summary. float_of rt (repr_of rt t) = Some t) \<longrightarrow>
        map (\<lambda>r. (r ! 0, float_of rt (r ! 1))) (tl (fst (csv_reader (readlines (csv_text rt summary)))))
          = map (\<lambda>(p, t). (p, Some t)) summary)
   \<and> (CR \<notin> set (csv_text rt summary) \<longrightarrow>
        csv_reader (open_text (csv_text rt summary)) = csv_reader (readlines (csv_text rt summary)))"
proof -
  let ?rows = "[''Project'', ''Days''] # map (\<lambda>(p, t). [p, repr_of rt t]) summary"
  have c0: "snd (last (written (write_csv rt fin summary w))) = csv_text rt summary"
    by (simp add: write_csv_def Let_def logging_info_def)
  have ne: "\<forall>r\<in>set ?rows. r \<noteq> []" by auto
  have c1: "csv_reader (readlines (csv_text rt summary)) = (?rows, None)"
    unfolding csv_reader_flat csv_text_rows using ne by (rule flat_rows)
  have c2: "(\<forall>(p, t)\<in>set summary. float_of rt (repr_of rt t) = Some t) \<longrightarrow>
        map (\<lambda>r. (r ! 0, float_of rt (r ! 1))) (tl (fst (csv_reader (readlines (csv_text rt summary)))))
          = map (\<lambda>(p, t). (p, Some t)) summary"
    unfolding c1 by auto
  have c3: "CR \<notin> set (csv_text rt summary) \<longrightarrow>
        csv_reader (open_text (csv_text rt summary)) = csv_reader (readlines (csv_text rt summary))"
    by (simp add: open_text_def universal_newlines_id)
  from c0 c1 c2 c3 show ?thesis by (intro conjI)
qed

theorem C8_round_trip_witness:
  "float_of (decimal_runtime False) (repr_of (decimal_runtime False) 5) = Some 5 \<and>
   float_of (decimal_runtime False) (repr_of (decimal_runtime False) 1) = Some 1 \<and>
   fst (csv_reader (readlines (csv_text (decimal_runtime False) [(''Alpha'', 5), (''Beta'', 1)])))
     = [[''Project'', ''Days''], [''Alpha'', ''5.0''], [''Beta'', ''1.0'']] \<and>
   map (\<lambda>r. (r ! 0, float_of (decimal_runtime False) (r ! 1)))
     (tl (fst (csv_reader (readlines (csv_text (decimal_runtime False) [(''Alpha'', 5), (''Beta'', 1)])))))
     = [(''Alpha'', Some 5), (''Beta'', Some 1)] \<and>
   CR \<notin> set (csv_text (decimal_runtime False) [(''Alpha'', 5), (''Beta'', 1)]) \<and>
   fst (csv_reader (open_text (csv_text (decimal_runtime False) [(''Alpha'', 5), (''Beta'', 1)])))
     = [[''Project'', ''Days''], [''Alpha'', ''5.0''], [''Beta'', ''1.0'']]"
proof -
  let ?rt = "decimal_runtime False"
  let ?s = "[(''Alpha'', 5 :: rat), (''Beta'', 1)]"
  have f5: "float_of ?rt (repr_of ?rt 5) = Some 5"
    by (simp add: decimal_runtime_def repr_examples decimal_float_def unsigned_float_def digit_of_def)
  have f1: "float_of ?rt (repr_of ?rt 1) = Some 1"
    by (simp add: decimal_runtime_def repr_examples decimal_float_def unsigned_float_def digit_of_def)
  have hyp: "\<forall>(p, t)\<in>set ?s. float_of ?rt (repr_of ?rt t) = Some t"
    using f5 f1 by simp
  note rows = C8_round_trip [of ?rt "''proj.csv''" ?s world0, THEN conjunct2, THEN conjunct1]
  note vals = C8_round_trip [of ?rt "''proj.csv''" ?s world0, THEN conjunct2, THEN conjunct2,
      THEN conjunct1, THEN mp, OF hyp]
  have r: "fst (csv_reader (readlines (csv_text ?rt ?s)))
     = [[''Project'', ''Days''], [''Alpha'', ''5.0''], [''Beta'', ''1.0'']]"
    unfolding rows by (simp add: decimal_runtime_def repr_examples)
  have nocr: "CR \<notin> set (csv_text ?rt ?s)"
    by (simp add: csv_text_def writerow_def quote_field_def quotechar_def delimiter_def LF_def
          CR_def decimal_runtime_def repr_examples)
  note same = C8_round_trip [of ?rt "''proj.csv''" ?s world0, THEN conjunct2, THEN conjunct2,
      THEN conjunct2, THEN mp, OF nocr]
  have u: "fst (csv_reader (open_text (csv_text ?rt ?s)))
     = [[''Project'', ''Days''], [''Alpha'', ''5.0''], [''Beta'', ''1.0'']]"
    unfolding same by (rule r)
  from f5 f1 r vals nocr u show ?thesis by simp
qed

subsection \<open>The files a run opens\<close>

lemma traced_bind:
  assumes "traced w r1 f1" and "\<And>w1. r1 = (None, w1) \<Longrightarrow> traced w1 (k w1) f2"
  shows "traced w (case r1 of (None, w') \<Rightarrow> k w' | (Some e, w') \<Rightarrow> (Some e, w')) (f1 @ f2)"
proof (cases r1)
  case (Pair x w1)
  from assms(1) obtain ps qs where o1: "opened w1 = opened w @ ps" and f1: "f1 = ps @ qs"
    and ok1: "x = None \<longrightarrow> qs = []"
    by (auto simp: traced_def Pair)
  show ?thesis
  proof (cases x)
    case None
    from assms(2) [of w1] None Pair obtain ps2 qs2
      where o2: "opened (snd (k w1)) = opened w1 @ ps2" and f2: "f2 = ps2 @ qs2"
        and ok2: "fst (k w1) = None \<longrightarrow> qs2 = []"
      by (auto simp: traced_def)
    from None ok1 have "qs = []" by simp
    with o1 o2 f1 f2 ok2 have "opened (snd (k w1)) = opened w @ (ps @ ps2) \<and> f1 @ f2 = (ps @ ps2) @ qs2
        \<and> (fst (k w1) = None \<longrightarrow> qs2 = [])" by simp
    then show ?thesis unfolding traced_def using None Pair by auto
  next
    case (Some e)
    from o1 f1 have "opened w1 = opened w @ ps \<and> f1 @ f2 = ps @ (qs @ f2)" by simp
    then show ?thesis unfolding traced_def using Some Pair by auto
  qed
qed

lemma traced_None: "opened w' = opened w \<Longrightarrow> traced w (None, w') []"
  by (simp add: traced_def)

lemma opened_create_chart: "opened (snd (create_chart rt hours w)) = opened w"
  by (simp add: create_chart_def logging_info_def plt_do_def)

lemma opened_write_csv: "opened (write_csv rt fin summary w) = opened w"
  by (simp add: write_csv_def logging_info_def Let_def)

lemma opened_process_file:
  "opened (snd (process_file rt a fin content w)) = opened w @ [fin]"
proof -
  have cc: "\<And>s w1 x w2. create_chart rt s w1 = (x, w2) \<Longrightarrow> opened w2 = opened w1"
    using opened_create_chart by (metis snd_conv)
  show ?thesis
    by (auto simp: process_file_def Let_def logging_info_def plt_do_def opened_write_csv
          split: sum.splits prod.splits option.splits dest!: cc)
qed

lemma traced_process_file: "traced w (process_file rt a fin content w) [fin]"
  by (simp add: traced_def opened_process_file)

lemma traced_process_files:
  "traced w (process_files rt a files w) (csv_paths files)"
  "traced w (for_walk rt a ts w) (walk_paths ts)"
proof (induction rt a files w and rt a ts w rule: process_files_for_walk.induct)
  case (1 rt a w)
  show ?case by (simp add: traced_None)
next
  case (2 rt a fin n files w)
  show ?case
  proof (cases n)
    case (Dir es)
    let ?w0 = "logging_info (''Searching '' @ fin) w"
    have a: "traced w (for_walk rt a (os_walk fin (Dir es)) ?w0) (walk_paths (os_walk fin (Dir es)))"
      using "2.IH"(3) [OF Dir] by (simp add: traced_def logging_info_def)
    have b: "\<And>w1. for_walk rt a (os_walk fin (Dir es)) ?w0 = (None, w1) \<Longrightarrow>
                traced w1 (process_files rt a files w1) (csv_paths files)"
      using "2.IH"(4) [OF Dir] by simp
    from traced_bind [OF a b] show ?thesis using Dir by (simp del: os_walk.simps)
  next
    case (File content)
    show ?thesis
    proof (cases "csv_name fin")
      case False
      then have "traced (logging_info (''Ignoring '' @ fin) w)
                   (process_files rt a files (logging_info (''Ignoring '' @ fin) w)) (csv_paths files)"
        using "2.IH"(1) [OF File] by (simp add: csv_name_def)
      then show ?thesis using File False by (simp add: csv_name_def traced_def logging_info_def)
    next
      case True
      have b: "\<And>w1. process_file rt a fin content w = (None, w1) \<Longrightarrow>
                traced w1 (process_files rt a files w1) (csv_paths files)"
        using "2.IH"(2) [OF File] True by (simp add: csv_name_def)
      from traced_bind [OF traced_process_file b] show ?thesis
        using File True by (simp add: csv_name_def)
    qed
  qed
next
  case (3 rt a w)
  show ?case by (simp add: traced_None)
next
  case (4 rt a rootdir dirnames filenames ts w)
  have a: "traced w (process_files rt a (join_all rootdir dirnames) w) (csv_paths (join_all rootdir dirnames))"
    by (rule "4.IH"(1))
  have b: "\<And>w1. process_files rt a (join_all rootdir dirnames) w = (None, w1) \<Longrightarrow>
     traced w1 (case process_files rt a (join_all rootdir filenames) w1 of
                  (None, w2) \<Rightarrow> for_walk rt a ts w2 | (Some e, w2) \<Rightarrow> (Some e, w2))
               (csv_paths (join_all rootdir filenames) @ walk_paths ts)"
  proof -
    fix w1 assume r1: "process_files rt a (join_all rootdir dirnames) w = (None, w1)"
    have c: "traced w1 (process_files rt a (join_all rootdir filenames) w1) (csv_paths (join_all rootdir filenames))"
      using "4.IH"(2) [OF r1 [symmetric]] by simp
    have d: "\<And>w2. process_files rt a (join_all rootdir filenames) w1 = (None, w2) \<Longrightarrow>
                traced w2 (for_walk rt a ts w2) (walk_paths ts)"
      using "4.IH"(3) [OF r1 [symmetric] _ _ ] by simp
    from traced_bind [OF c d]
    show "traced w1 (case process_files rt a (join_all rootdir filenames) w1 of
                  (None, w2) \<Rightarrow> for_walk rt a ts w2 | (Some e, w2) \<Rightarrow> (Some e, w2))
               (csv_paths (join_all rootdir filenames) @ walk_paths ts)" .
  qed
  from traced_bind [OF a b] show ?case by simp
qed

lemma csv_paths_append: "csv_paths (xs @ ys) = csv_paths xs @ csv_paths ys"
proof (induction xs)
  case Nil
  show ?case by simp
next
  case (Cons x xs)
  obtain fin n where x: "x = (fin, n)" by (cases x)
  from Cons show ?case by (cases n) (simp_all add: x del: os_walk.simps)
qed

lemma walk_paths_append: "walk_paths (xs @ ys) = walk_paths xs @ walk_paths ys"
proof (induction xs)
  case Nil
  show ?case by simp
next
  case (Cons x xs)
  obtain r ds fs where x: "x = (r, ds, fs)" by (cases x)
  from Cons show ?case by (simp add: x)
qed

lemma walk_paths_concat: "walk_paths (concat tss) = concat (map walk_paths tss)"
  by (induction tss) (simp_all add: walk_paths_append)

lemma csv_paths_each: "csv_paths xs = concat (map (\<lambda>x. csv_paths [x]) xs)"
proof (induction xs)
  case Nil
  show ?case by simp
next
  case (Cons x xs)
  have "csv_paths (x # xs) = csv_paths [x] @ csv_paths xs"
    using csv_paths_append [of "[x]" xs] by simp
  with Cons show ?case by simp
qed

lemma csv_paths_all_csv:
  "\<forall>p\<in>set (csv_paths files). csv_name p"
  "\<forall>p\<in>set (walk_paths ts). csv_name p"
proof (induction files and ts rule: csv_paths_walk_paths.induct)
  case 1
  show ?case by simp
next
  case (2 fin n files)
  then show ?case by (cases n) (auto simp del: os_walk.simps)
next
  case 3
  show ?case by simp
next
  case (4 rootdir dirnames filenames ts)
  then show ?case by auto
qed

lemma csv_paths_files:
  "\<forall>e\<in>set fs. \<not> isdir (snd e) \<Longrightarrow> csv_paths fs = filter csv_name (map fst fs)"
proof (induction fs)
  case Nil
  show ?case by simp
next
  case (Cons e fs)
  obtain fin n where e: "e = (fin, n)" by (cases e)
  from Cons.prems obtain c where n: "n = File c" by (cases n) (auto simp: e)
  from Cons show ?case by (simp add: e n)
qed

lemma csv_paths_Dir:
  "csv_paths [(d, Dir es)]
     = below d es @ filter csv_name (map (\<lambda>e. join d (fst e)) (filenames_of es)) @ below d es"
proof -
  have first: "csv_paths (join_all d (dirnames_of es)) = below d es"
    using csv_paths_each [of "join_all d (dirnames_of es)"]
    by (simp add: below_def join_all_def comp_def)
  have files: "csv_paths (join_all d (filenames_of es))
                 = filter csv_name (map (\<lambda>e. join d (fst e)) (filenames_of es))"
    using csv_paths_files [of "join_all d (filenames_of es)"]
    by (simp add: join_all_def filenames_of_def comp_def)
  have sub: "\<And>e. e \<in> set (dirnames_of es) \<Longrightarrow>
               walk_paths (os_walk (join d (fst e)) (snd e)) = csv_paths [(join d (fst e), snd e)]"
  proof -
    fix e assume "e \<in> set (dirnames_of es)"
    then obtain es' where "snd e = Dir es'" by (cases "snd e") (auto simp: dirnames_of_def)
    then show "walk_paths (os_walk (join d (fst e)) (snd e)) = csv_paths [(join d (fst e), snd e)]"
      by (simp del: os_walk.simps)
  qed
  have rest: "walk_paths (concat (map (\<lambda>e. os_walk (join d (fst e)) (snd e)) (dirnames_of es)))
                = below d es"
    unfolding walk_paths_concat below_def using sub by (simp add: comp_def cong: map_cong)
  show ?thesis by (simp add: first files rest)
qed

lemma count_below_twice:
  "count_list (csv_paths [(d, Dir es)]) p
     = 2 * count_list (below d es) p
       + count_list (filter csv_name (map (\<lambda>e. join d (fst e)) (filenames_of es))) p"
  by (subst csv_paths_Dir) simp

lemma endswith_append: "endswith b s \<Longrightarrow> endswith (x @ b) s"
proof -
  assume a: "endswith b s"
  then have le: "length s \<le> length b" and d: "drop (length b - length s) b = s"
    by (simp_all add: endswith_def)
  have n: "length (x @ b) - length s = length x + (length b - length s)" using le by simp
  have "drop (length (x @ b) - length s) (x @ b) = s" unfolding n using d by simp
  moreover have "length s \<le> length (x @ b)" using le by simp
  ultimately show ?thesis unfolding endswith_def by blast
qed

lemma join_suffix: "\<exists>x. join a b = x @ b"
proof -
  have "b = [] @ b" "a @ b = a @ b" "a @ ''/'' @ b = (a @ ''/'') @ b" by simp_all
  then show ?thesis unfolding join_def by (metis (full_types))
qed

lemma endswith_join: "endswith b s \<Longrightarrow> endswith (join a b) s"
  using join_suffix [of a b] endswith_append by metis

lemma csv_name_join: "csv_name b \<Longrightarrow> csv_name (join a b)"
  by (auto simp: csv_name_def intro: endswith_join)

lemma nested_in_below:
  assumes "(d, Dir es') \<in> set es" and "(f, File c) \<in> set es'" and "csv_name f"
  shows "join (join tp d) f \<in> set (below tp es)"
proof -
  have e: "(d, Dir es') \<in> set (dirnames_of es)" using assms(1) by (simp add: dirnames_of_def)
  have "(f, File c) \<in> set (filenames_of es')" using assms(2) by (simp add: filenames_of_def)
  then have "join (join tp d) f \<in> (\<lambda>e. join (join tp d) (fst e)) ` set (filenames_of es')"
    by force
  with assms(3) have "join (join tp d) f \<in> set (csv_paths [(join tp d, Dir es')])"
    unfolding csv_paths_Dir by (simp add: csv_name_join)
  with e show ?thesis unfolding below_def by force
qed

lemma proper_names_entry:
  "proper_names (Dir es) \<Longrightarrow> e \<in> set es \<Longrightarrow> proper_name (fst e) \<and> proper_names (snd e)"
  by (simp add: list_all_iff)

lemma join_proper:
  "proper_name x \<Longrightarrow> q \<noteq> [] \<Longrightarrow> last q \<noteq> CHR ''/'' \<Longrightarrow> join q x = q @ CHR ''/'' # x"
proof -
  assume x: "proper_name x" and q: "q \<noteq> []" and l: "last q \<noteq> CHR ''/''"
  from x have "\<not> startswith x ''/''" by (cases x) (auto simp: proper_name_def startswith_def)
  moreover have "\<not> endswith q ''/''"
  proof
    assume "endswith q ''/''"
    then have "drop (length q - 1) q = ''/''" by (simp add: endswith_def)
    moreover have "drop (length q - 1) q = [last q]"
      using q by (metis One_nat_def append_butlast_last_id append_eq_conv_conj length_butlast)
    ultimately show False using l by simp
  qed
  ultimately show ?thesis using q by (simp add: join_def)
qed

lemma join_top:
  "proper_name x \<Longrightarrow> join tp x = (if tp = [] \<or> endswith tp ''/'' then tp else tp @ ''/'') @ x"
proof -
  assume x: "proper_name x"
  then have "\<not> startswith x ''/''" by (cases x) (auto simp: proper_name_def startswith_def)
  then show ?thesis by (simp add: join_def)
qed

lemma join_proper_shape:
  "proper_name d \<Longrightarrow> join tp d \<noteq> [] \<and> last (join tp d) \<noteq> CHR ''/''"
proof -
  assume d: "proper_name d"
  then have ne: "d \<noteq> []" and "CHR ''/'' \<notin> set d" by (simp_all add: proper_name_def)
  then have "last d \<noteq> CHR ''/''" using last_in_set by metis
  with ne show ?thesis by (simp add: join_top [OF d])
qed

lemma paths_below_prefix:
  "proper_names n \<Longrightarrow> q \<noteq> [] \<Longrightarrow> last q \<noteq> CHR ''/'' \<Longrightarrow> isdir n \<Longrightarrow>
     p \<in> set (csv_paths [(q, n)]) \<Longrightarrow> \<exists>t. p = q @ CHR ''/'' # t"
proof (induction n arbitrary: q p rule: proper_names.induct)
  case (1 c)
  then show ?case by simp
next
  case (2 es)
  from "2.prems"(5) consider
      (sub) "p \<in> set (below q es)"
    | (leaf) "p \<in> set (filter csv_name (map (\<lambda>e. join q (fst e)) (filenames_of es)))"
    unfolding csv_paths_Dir by auto
  then show ?case
  proof cases
    case leaf
    then obtain e where e: "e \<in> set es" and p: "p = join q (fst e)"
      by (auto simp: filenames_of_def)
    from proper_names_entry [OF "2.prems"(1) e] have "proper_name (fst e)" by simp
    from join_proper [OF this "2.prems"(2,3)] p show ?thesis by simp
  next
    case sub
    then obtain e where e: "e \<in> set es" and dir: "isdir (snd e)"
      and p: "p \<in> set (csv_paths [(join q (fst e), snd e)])"
      by (auto simp: below_def dirnames_of_def)
    from proper_names_entry [OF "2.prems"(1) e]
    have pn: "proper_name (fst e)" and ps: "proper_names (snd e)" by simp_all
    have j: "join q (fst e) = q @ CHR ''/'' # fst e" by (rule join_proper [OF pn "2.prems"(2,3)])
    from pn have ne: "fst e \<noteq> []" and "CHR ''/'' \<notin> set (fst e)" by (simp_all add: proper_name_def)
    then have "last (fst e) \<noteq> CHR ''/''" using last_in_set by metis
    with ne have shape: "join q (fst e) \<noteq> []" "last (join q (fst e)) \<noteq> CHR ''/''"
      by (simp_all add: j)
    from "2.IH" [OF e ps shape dir p] pn
    obtain t where "p = join q (fst e) @ CHR ''/'' # t" by auto
    then show ?thesis by (simp add: j)
  qed
qed

lemma top_file_not_below:
  assumes es: "proper_names (Dir es)" and f: "proper_name f"
  shows "join tp f \<notin> set (below tp es)"
proof
  assume "join tp f \<in> set (below tp es)"
  then obtain e where e: "e \<in> set es" and dir: "isdir (snd e)"
    and p: "join tp f \<in> set (csv_paths [(join tp (fst e), snd e)])"
    by (auto simp: below_def dirnames_of_def)
  from proper_names_entry [OF es e]
  have pn: "proper_name (fst e)" and ps: "proper_names (snd e)" by simp_all
  from join_proper_shape [OF pn]
  have shape: "join tp (fst e) \<noteq> []" "last (join tp (fst e)) \<noteq> CHR ''/''" by simp_all
  from paths_below_prefix [OF ps shape dir p]
  obtain t where "join tp f = join tp (fst e) @ CHR ''/'' # t" by blast
  then have "f = fst e @ CHR ''/'' # t" by (simp add: join_top [OF f] join_top [OF pn])
  then have "CHR ''/'' \<in> set f" by simp
  with f show False by (simp add: proper_name_def)
qed

lemma one_entry:
  "distinct (map fst xs) \<Longrightarrow> (f, v) \<in> set xs \<Longrightarrow> length (filter (\<lambda>e. fst e = f) xs) = 1"
proof (induction xs)
  case Nil
  then show ?case by simp
next
  case (Cons x xs)
  show ?case
  proof (cases "x = (f, v)")
    case True
    with Cons.prems(1) have "\<forall>e\<in>set xs. fst e \<noteq> f" by force
    then have "filter (\<lambda>e. fst e = f) xs = []" by (simp add: filter_empty_conv)
    with True show ?thesis by simp
  next
    case False
    with Cons.prems have mem: "(f, v) \<in> set xs" by simp
    then have "f \<in> fst ` set xs" by force
    with Cons.prems(1) have "fst x \<noteq> f" by auto
    with Cons mem show ?thesis by simp
  qed
qed

lemma top_file_once:
  assumes dist: "distinct (map fst es)" and es: "proper_names (Dir es)"
    and mem: "(f, File c) \<in> set es" and csv: "csv_name f"
  shows "count_list (csv_paths [(tp, Dir es)]) (join tp f) = 1"
proof -
  from proper_names_entry [OF es mem] have pf: "proper_name f" by simp
  have nb: "count_list (below tp es) (join tp f) = 0"
    using top_file_not_below [OF es pf, of tp] by (simp add: count_list_0_iff)
  let ?fs = "filenames_of es"
  have mem': "(f, File c) \<in> set ?fs" using mem by (simp add: filenames_of_def)
  have dist': "distinct (map fst ?fs)" using dist by (simp add: filenames_of_def distinct_map_filter)
  have inj: "\<And>e. e \<in> set ?fs \<Longrightarrow> (join tp (fst e) = join tp f) = (fst e = f)"
  proof -
    fix e assume "e \<in> set ?fs"
    then have "e \<in> set es" by (simp add: filenames_of_def)
    from proper_names_entry [OF es this] have "proper_name (fst e)" by simp
    then show "(join tp (fst e) = join tp f) = (fst e = f)" by (simp add: join_top pf)
  qed
  have "count_list (filter csv_name (map (\<lambda>e. join tp (fst e)) ?fs)) (join tp f)
          = length (filter (\<lambda>e. join tp (fst e) = join tp f) ?fs)"
  proof -
    have "filter (\<lambda>x. csv_name (join tp (fst x)) \<and> join tp f = join tp (fst x)) ?fs
            = filter (\<lambda>e. join tp (fst e) = join tp f) ?fs"
      using csv_name_join [OF csv, of tp] by (intro filter_cong) auto
    then show ?thesis
      by (simp add: count_list_eq_length_filter filter_map comp_def)
  qed
  also have "\<dots> = length (filter (\<lambda>e. fst e = f) ?fs)"
    using inj by (metis (mono_tags, lifting) filter_cong)
  also have "\<dots> = 1" using one_entry [OF dist' mem'] .
  finally show ?thesis by (subst count_below_twice) (simp add: nb)
qed

lemma splitext_reports: "splitext_root ''reports/proj.csv'' = ''reports/proj''"
  by code_simp

lemma opened_run:
  "fst (process_files rt a files w) = None \<Longrightarrow>
     opened (snd (process_files rt a files w)) = opened w @ csv_paths files"
  using traced_process_files(1) [of w rt a files] by (auto simp: traced_def)

lemma exported_bind:
  assumes "exported a w r1 f1" and "\<And>w1. r1 = (None, w1) \<Longrightarrow> exported a w1 (k w1) f2"
  shows "exported a w (case r1 of (None, w') \<Rightarrow> k w' | (Some e, w') \<Rightarrow> (Some e, w')) (f1 @ f2)"
proof (cases r1)
  case (Pair x w1)
  show ?thesis
  proof (cases x)
    case None
    with assms Pair show ?thesis by (auto simp: exported_def)
  next
    case (Some e)
    with Pair show ?thesis by (simp add: exported_def)
  qed
qed

lemma exported_None: "written w' = written w \<Longrightarrow> exported a w (None, w') []"
  by (simp add: exported_def)

lemma written_create_chart: "written (snd (create_chart rt hours w)) = written w"
  by (simp add: create_chart_def logging_info_def plt_do_def)

lemma exported_process_file: "exported a w (process_file rt a fin content w) [fin]"
proof -
  have cc: "\<And>s w1 x w2. create_chart rt s w1 = (x, w2) \<Longrightarrow> written w2 = written w1"
    using written_create_chart by (metis snd_conv)
  show ?thesis
    by (auto simp: exported_def process_file_def Let_def logging_info_def plt_do_def write_csv_def
          out_csv_def split: sum.splits prod.splits option.splits if_splits dest!: cc)
qed

lemma exported_process_files:
  "exported a w (process_files rt a files w) (csv_paths files)"
  "exported a w (for_walk rt a ts w) (walk_paths ts)"
proof (induction rt a files w and rt a ts w rule: process_files_for_walk.induct)
  case (1 rt a w)
  show ?case by (simp add: exported_None)
next
  case (2 rt a fin n files w)
  show ?case
  proof (cases n)
    case (Dir es)
    let ?w0 = "logging_info (''Searching '' @ fin) w"
    have a: "exported a w (for_walk rt a (os_walk fin (Dir es)) ?w0) (walk_paths (os_walk fin (Dir es)))"
      using "2.IH"(3) [OF Dir] by (simp add: exported_def logging_info_def)
    have b: "\<And>w1. for_walk rt a (os_walk fin (Dir es)) ?w0 = (None, w1) \<Longrightarrow>
                exported a w1 (process_files rt a files w1) (csv_paths files)"
      using "2.IH"(4) [OF Dir] by simp
    from exported_bind [OF a b] show ?thesis using Dir by (simp del: os_walk.simps)
  next
    case (File content)
    show ?thesis
    proof (cases "csv_name fin")
      case False
      then have "exported a (logging_info (''Ignoring '' @ fin) w)
                   (process_files rt a files (logging_info (''Ignoring '' @ fin) w)) (csv_paths files)"
        using "2.IH"(1) [OF File] by (simp add: csv_name_def)
      then show ?thesis using File False by (simp add: csv_name_def exported_def logging_info_def)
    next
      case True
      have b: "\<And>w1. process_file rt a fin content w = (None, w1) \<Longrightarrow>
                exported a w1 (process_files rt a files w1) (csv_paths files)"
        using "2.IH"(2) [OF File] True by (simp add: csv_name_def)
      from exported_bind [OF exported_process_file b] show ?thesis
        using File True by (simp add: csv_name_def)
    qed
  qed
next
  case (3 rt a w)
  show ?case by (simp add: exported_None)
next
  case (4 rt a rootdir dirnames filenames ts w)
  have a: "exported a w (process_files rt a (join_all rootdir dirnames) w) (csv_paths (join_all rootdir dirnames))"
    by (rule "4.IH"(1))
  have b: "\<And>w1. process_files rt a (join_all rootdir dirnames) w = (None, w1) \<Longrightarrow>
     exported a w1 (case process_files rt a (join_all rootdir filenames) w1 of
                  (None, w2) \<Rightarrow> for_walk rt a ts w2 | (Some e, w2) \<Rightarrow> (Some e, w2))
               (csv_paths (join_all rootdir filenames) @ walk_paths ts)"
  proof -
    fix w1 assume r1: "process_files rt a (join_all rootdir dirnames) w = (None, w1)"
    have c: "exported a w1 (process_files rt a (join_all rootdir filenames) w1) (csv_paths (join_all rootdir filenames))"
      using "4.IH"(2) [OF r1 [symmetric]] by simp
    have d: "\<And>w2. process_files rt a (join_all rootdir filenames) w1 = (None, w2) \<Longrightarrow>
                exported a w2 (for_walk rt a ts w2) (walk_paths ts)"
      using "4.IH"(3) [OF r1 [symmetric] _ _ ] by simp
    from exported_bind [OF c d]
    show "exported a w1 (case process_files rt a (join_all rootdir filenames) w1 of
                  (None, w2) \<Rightarrow> for_walk rt a ts w2 | (Some e, w2) \<Rightarrow> (Some e, w2))
               (csv_paths (join_all rootdir filenames) @ walk_paths ts)" .
  qed
  from exported_bind [OF a b] show ?case by simp
qed

lemma written_run:
  "fst (process_files rt a files w) = None \<Longrightarrow>
     map fst (written (snd (process_files rt a files w)))
       = map fst (written w) @ (if no_export a then [] else map out_csv (csv_paths files))"
  using exported_process_files(1) [of a w rt files] by (simp add: exported_def)

text \<open>
  C9. A path that is not a directory and ends neither in \<^verbatim>\<open>.csv\<close> nor in \<^verbatim>\<open>.CSV\<close> is
  skipped: the run logs \<^verbatim>\<open>Ignoring\<close> with the path and goes on with the next path,
  raising nothing. Every file a run opens has a path with one of the two endings.
  The run on a directory with \<^verbatim>\<open>proj.csv\<close> and \<^verbatim>\<open>notes.txt\<close> opens and converts
  \<^verbatim>\<open>proj.csv\<close> only.
\<close>

theorem C9_only_csv_files:
  "(\<not> (endswith fin ''.csv'' \<or> endswith fin ''.CSV'') \<longrightarrow>
      process_files rt a ((fin, File content) # files) w
        = process_files rt a files (logging_info (''Ignoring '' @ fin) w))
   \<and> (\<forall>p\<in>set (opened (snd (process_files rt a files w))).
         p \<in> set (opened w) \<or> endswith p ''.csv'' \<or> endswith p ''.CSV'')
   \<and> process_files (decimal_runtime False) \<lparr>plot = False, save_plot = False, no_export = False\<rparr>
         [(''reports'', Dir [(''proj.csv'', File proj_csv), (''notes.txt'', File ''to do'')])] world0
       = (None,
          \<lparr>info_log = [''Searching reports'', ''Processing reports/proj.csv'',
                        ''Writing reports/proj_out.csv'', ''Ignoring reports/notes.txt''],
           opened = [''reports/proj.csv''],
           written = [(''reports/proj_out.csv'',
                       csv_text (decimal_runtime False) [(''Alpha'', 5), (''Beta'', 1)])],
           plt = []\<rparr>)"
proof -
  have c1: "\<not> (endswith fin ''.csv'' \<or> endswith fin ''.CSV'') \<longrightarrow>
      process_files rt a ((fin, File content) # files) w
        = process_files rt a files (logging_info (''Ignoring '' @ fin) w)"
    by simp
  have c2: "\<forall>p\<in>set (opened (snd (process_files rt a files w))).
         p \<in> set (opened w) \<or> endswith p ''.csv'' \<or> endswith p ''.CSV''"
  proof
    fix p assume p: "p \<in> set (opened (snd (process_files rt a files w)))"
    from traced_process_files(1) [of w rt a files] obtain ps qs
      where o: "opened (snd (process_files rt a files w)) = opened w @ ps"
        and f: "csv_paths files = ps @ qs"
      by (auto simp: traced_def)
    from p o have "p \<in> set (opened w) \<or> p \<in> set ps" by simp
    moreover have "p \<in> set ps \<Longrightarrow> csv_name p"
      using csv_paths_all_csv(1) [of files] f by simp
    ultimately show "p \<in> set (opened w) \<or> endswith p ''.csv'' \<or> endswith p ''.CSV''"
      by (auto simp: csv_name_def)
  qed
  have c3: "process_files (decimal_runtime False) \<lparr>plot = False, save_plot = False, no_export = False\<rparr>
         [(''reports'', Dir [(''proj.csv'', File proj_csv), (''notes.txt'', File ''to do'')])] world0
       = (None,
          \<lparr>info_log = [''Searching reports'', ''Processing reports/proj.csv'',
                        ''Writing reports/proj_out.csv'', ''Ignoring reports/notes.txt''],
           opened = [''reports/proj.csv''],
           written = [(''reports/proj_out.csv'',
                       csv_text (decimal_runtime False) [(''Alpha'', 5), (''Beta'', 1)])],
           plt = []\<rparr>)"
    by (simp add: proj_csv_def io_defs run_defs splitext_reports repr_examples)
  from c1 c2 c3 show ?thesis by (intro conjI)
qed

theorem C9_only_csv_files_witness:
  "\<not> (endswith ''notes.Csv'' ''.csv'' \<or> endswith ''notes.Csv'' ''.CSV'') \<and>
   process_files (decimal_runtime False) \<lparr>plot = False, save_plot = False, no_export = False\<rparr>
     [(''notes.Csv'', File ''to do''), (''proj.csv'', File proj_csv)] world0
   = process_files (decimal_runtime False) \<lparr>plot = False, save_plot = False, no_export = False\<rparr>
       [(''proj.csv'', File proj_csv)] (logging_info ''Ignoring notes.Csv'' world0) \<and>
   opened (snd (process_files (decimal_runtime False) \<lparr>plot = False, save_plot = False, no_export = False\<rparr>
     [(''notes.Csv'', File ''to do''), (''proj.csv'', File proj_csv)] world0)) = [''proj.csv''] \<and>
   endswith ''proj.csv'' ''.csv''"
proof -
  let ?rt = "decimal_runtime False"
  let ?a = "\<lparr>plot = False, save_plot = False, no_export = False\<rparr>"
  let ?files = "[(''notes.Csv'', File ''to do''), (''proj.csv'', File proj_csv)]"
  have h: "\<not> (endswith ''notes.Csv'' ''.csv'' \<or> endswith ''notes.Csv'' ''.CSV'')"
    by (simp add: endswith_def)
  note skip = C9_only_csv_files [of "''notes.Csv''" ?rt ?a "''to do''" "[(''proj.csv'', File proj_csv)]" world0,
      THEN conjunct1, THEN mp, OF h]
  have o: "opened (snd (process_files ?rt ?a ?files world0)) = [''proj.csv'']"
    by (simp add: proj_csv_def io_defs run_defs splitext_proj repr_examples)
  then have mem: "''proj.csv'' \<in> set (opened (snd (process_files ?rt ?a ?files world0)))" by simp
  note only = C9_only_csv_files [of _ ?rt ?a _ ?files world0, THEN conjunct2, THEN conjunct1,
      THEN bspec, OF mem]
  have "endswith ''proj.csv'' ''.csv''" using only by (simp add: world0_def endswith_def)
  with h skip o show ?thesis by simp
qed

text \<open>
  C10. A run on a directory that completes visits what lies below the
  subdirectories twice: the loop over \<^verbatim>\<open>os.walk\<close> calls \<^verbatim>\<open>process_files\<close> on each
  subdirectory and then reaches the same subdirectory in the walk. Without export
  the files opened are, in this order, those below the subdirectories, those of the
  directory itself, and again those below the subdirectories. In every case a
  \<^verbatim>\<open>.csv\<close> file in a subdirectory is opened at least twice, and a \<^verbatim>\<open>.csv\<close> file of the
  directory itself exactly once (for names as a file system has them); and with
  export enabled every opening is followed by the writing of the file's output, so
  the output of a nested file is written as often as the file is opened.
\<close>

theorem C10_nested_files_repeat:
  assumes "fst (process_files rt a [(tp, Dir es)] w) = None" and "opened w = []"
  shows "(no_export a \<longrightarrow>
            opened (snd (process_files rt a [(tp, Dir es)] w))
              = below tp es @ filter csv_name (map (\<lambda>e. join tp (fst e)) (filenames_of es)) @ below tp es)
       \<and> (\<forall>d es' f c. (d, Dir es') \<in> set es \<and> (f, File c) \<in> set es' \<and> csv_name f \<longrightarrow>
            2 \<le> count_list (opened (snd (process_files rt a [(tp, Dir es)] w))) (join (join tp d) f))
       \<and> (distinct (map fst es) \<and> proper_names (Dir es) \<longrightarrow>
            (\<forall>f c. (f, File c) \<in> set es \<and> csv_name f \<longrightarrow>
               count_list (opened (snd (process_files rt a [(tp, Dir es)] w))) (join tp f) = 1))
       \<and> (\<not> no_export a \<longrightarrow>
            map fst (written (snd (process_files rt a [(tp, Dir es)] w)))
              = map fst (written w) @ map out_csv (opened (snd (process_files rt a [(tp, Dir es)] w))))"
proof -
  have o: "opened (snd (process_files rt a [(tp, Dir es)] w)) = csv_paths [(tp, Dir es)]"
    using opened_run [OF assms(1)] assms(2) by simp
  have c1: "no_export a \<longrightarrow>
            opened (snd (process_files rt a [(tp, Dir es)] w))
              = below tp es @ filter csv_name (map (\<lambda>e. join tp (fst e)) (filenames_of es)) @ below tp es"
    unfolding o by (subst csv_paths_Dir) simp
  have c2: "\<forall>d es' f c. (d, Dir es') \<in> set es \<and> (f, File c) \<in> set es' \<and> csv_name f \<longrightarrow>
            2 \<le> count_list (opened (snd (process_files rt a [(tp, Dir es)] w))) (join (join tp d) f)"
  proof (intro allI impI, elim conjE)
    fix d es' f c
    assume "(d, Dir es') \<in> set es" and "(f, File c) \<in> set es'" and "csv_name f"
    then have "join (join tp d) f \<in> set (below tp es)" by (rule nested_in_below)
    then have "count_list (below tp es) (join (join tp d) f) \<noteq> 0" by (simp add: count_list_0_iff)
    then show "2 \<le> count_list (opened (snd (process_files rt a [(tp, Dir es)] w))) (join (join tp d) f)"
      unfolding o count_below_twice by simp
  qed
  have c3: "distinct (map fst es) \<and> proper_names (Dir es) \<longrightarrow>
            (\<forall>f c. (f, File c) \<in> set es \<and> csv_name f \<longrightarrow>
               count_list (opened (snd (process_files rt a [(tp, Dir es)] w))) (join tp f) = 1)"
    unfolding o using top_file_once by blast
  have c4: "\<not> no_export a \<longrightarrow>
            map fst (written (snd (process_files rt a [(tp, Dir es)] w)))
              = map fst (written w) @ map out_csv (opened (snd (process_files rt a [(tp, Dir es)] w)))"
    unfolding o using written_run [OF assms(1)] by simp
  from c1 c2 c3 c4 show ?thesis by (intro conjI)
qed

theorem C10_nested_files_repeat_witness:
  "process_files (decimal_runtime False) \<lparr>plot = False, save_plot = False, no_export = True\<rparr>
     [(''top'', Dir [(''a.txt'', File ''to do''), (''sub'', Dir [(''x.csv'', File website_csv)]),
                     (''b.CSV'', File proj_csv)])] world0
   = (None,
      \<lparr>info_log = [''Searching top'', ''Searching top/sub'', ''Processing top/sub/x.csv'',
                    ''Ignoring top/a.txt'', ''Processing top/b.CSV'', ''Processing top/sub/x.csv''],
       opened = [''top/sub/x.csv'', ''top/b.CSV'', ''top/sub/x.csv''], written = [], plt = []\<rparr>) \<and>
   opened world0 = [] \<and> csv_name ''x.csv'' \<and> csv_name ''b.CSV'' \<and>
   distinct (map fst [(''a.txt'', File ''to do''), (''sub'', Dir [(''x.csv'', File website_csv)]),
                     (''b.CSV'', File proj_csv)]) \<and>
   proper_names (Dir [(''a.txt'', File ''to do''), (''sub'', Dir [(''x.csv'', File website_csv)]),
                     (''b.CSV'', File proj_csv)]) \<and>
   below ''top'' [(''a.txt'', File ''to do''), (''sub'', Dir [(''x.csv'', File website_csv)]),
                     (''b.CSV'', File proj_csv)] = [''top/sub/x.csv''] \<and>
   2 \<le> count_list [''top/sub/x.csv'', ''top/b.CSV'', ''top/sub/x.csv''] ''top/sub/x.csv'' \<and>
   count_list [''top/sub/x.csv'', ''top/b.CSV'', ''top/sub/x.csv''] ''top/b.CSV'' = 1 \<and>
   fst (process_files (decimal_runtime False) \<lparr>plot = False, save_plot = False, no_export = False\<rparr>
     [(''reports'', Dir [(''proj.csv'', File proj_csv), (''notes.txt'', File ''to do'')])] world0) = None \<and>
   opened (snd (process_files (decimal_runtime False) \<lparr>plot = False, save_plot = False, no_export = False\<rparr>
     [(''reports'', Dir [(''proj.csv'', File proj_csv), (''notes.txt'', File ''to do'')])] world0))
     = [''reports/proj.csv''] \<and>
   map fst (written (snd (process_files (decimal_runtime False)
     \<lparr>plot = False, save_plot = False, no_export = False\<rparr>
     [(''reports'', Dir [(''proj.csv'', File proj_csv), (''notes.txt'', File ''to do'')])] world0)))
     = [''reports/proj_out.csv'']"
proof -
  let ?rt = "decimal_runtime False"
  let ?a = "\<lparr>plot = False, save_plot = False, no_export = True\<rparr>"
  let ?b = "\<lparr>plot = False, save_plot = False, no_export = False\<rparr>"
  let ?sub = "[(''x.csv'', File website_csv)]"
  let ?es = "[(''a.txt'', File ''to do''), (''sub'', Dir ?sub), (''b.CSV'', File proj_csv)]"
  let ?rs = "[(''proj.csv'', File proj_csv), (''notes.txt'', File ''to do'')]"
  let ?o = "[''top/sub/x.csv'', ''top/b.CSV'', ''top/sub/x.csv'']"
  have run: "process_files ?rt ?a [(''top'', Dir ?es)] world0
   = (None,
      \<lparr>info_log = [''Searching top'', ''Searching top/sub'', ''Processing top/sub/x.csv'',
                    ''Ignoring top/a.txt'', ''Processing top/b.CSV'', ''Processing top/sub/x.csv''],
       opened = ?o, written = [], plt = []\<rparr>)"
    by (simp add: website_csv_def proj_csv_def io_defs run_defs)
  have h1: "fst (process_files ?rt ?a [(''top'', Dir ?es)] world0) = None" unfolding run by simp
  have h2: "opened world0 = []" and w0: "written world0 = []" by (simp_all add: world0_def)
  have n1: "csv_name ''x.csv''" and n2: "csv_name ''b.CSV''" by (simp_all add: csv_name_def endswith_def)
  have d: "distinct (map fst ?es)" by simp
  have pn: "proper_names (Dir ?es)" by (simp add: proper_name_def)
  have na: "no_export ?a" and nb: "\<not> no_export ?b" by simp_all
  have j1: "join (join ''top'' ''sub'') ''x.csv'' = ''top/sub/x.csv''"
    and j2: "join ''top'' ''b.CSV'' = ''top/b.CSV''"
    by (simp_all add: join_def startswith_def endswith_def)
  note order = C10_nested_files_repeat [OF h1 h2, THEN conjunct1, THEN mp, OF na]
  note twice = C10_nested_files_repeat [OF h1 h2, THEN conjunct2, THEN conjunct1, rule_format,
      of "''sub''" ?sub "''x.csv''" website_csv]
  note once = C10_nested_files_repeat [OF h1 h2, THEN conjunct2, THEN conjunct2, THEN conjunct1,
      rule_format, of "''b.CSV''" proj_csv]
  have bl: "below ''top'' ?es = [''top/sub/x.csv'']"
    by (simp add: below_def website_csv_def io_defs run_defs csv_name_def)
  have "opened (snd (process_files ?rt ?a [(''top'', Dir ?es)] world0))
          = [''top/sub/x.csv''] @ [''top/b.CSV''] @ [''top/sub/x.csv'']"
    using order [unfolded bl]
    by (simp add: filenames_of_def join_def csv_name_def startswith_def endswith_def)
  have t: "2 \<le> count_list ?o ''top/sub/x.csv''"
    using twice [unfolded run j1] n1 by simp
  have s: "count_list ?o ''top/b.CSV'' = 1"
    using once [unfolded run j2] d pn n2 by simp
  have g1: "fst (process_files ?rt ?b [(''reports'', Dir ?rs)] world0) = None"
    by (simp add: proj_csv_def io_defs run_defs splitext_reports repr_examples)
  have go: "opened (snd (process_files ?rt ?b [(''reports'', Dir ?rs)] world0)) = [''reports/proj.csv'']"
    by (simp add: proj_csv_def io_defs run_defs splitext_reports repr_examples)
  note outs = C10_nested_files_repeat [OF g1 h2, THEN conjunct2, THEN conjunct2, THEN conjunct2,
      THEN mp, OF nb]
  have wr: "map fst (written (snd (process_files ?rt ?b [(''reports'', Dir ?rs)] world0)))
              = [''reports/proj_out.csv'']"
    using outs [unfolded go w0] by (simp add: out_csv_def splitext_reports)
  from run h2 n1 n2 d pn bl t s g1 go wr show ?thesis by simp
qed

end
